theory Spec2Isabelle
  imports Main
begin

unbundle bit_operations_syntax

section \<open>Python values and control flow shared by the notebooks\<close>

text \<open>
  The three notebooks work on Python \<open>str\<close> and \<open>int\<close> values.  A \<open>str\<close> is modelled
  as a \<^typ>\<open>string\<close> whose characters are the code points below 256, an \<open>int\<close> as
  \<^typ>\<open>int\<close> (or \<^typ>\<open>nat\<close> where the code only ever holds a non-negative value).
  Every exception the code can raise is a value of \<open>error\<close>; a function that can raise
  returns \<open>error + 'a\<close>.  Output written with \<open>print\<close> is not part of the model.
\<close>

datatype error =
    ValueError
  | IndexError
  | TypeError
  | ZeroDivisionError
  | DifferentPublicKeys int int

definition bindE :: "error + 'a \<Rightarrow> ('a \<Rightarrow> error + 'b) \<Rightarrow> error + 'b" where
  "bindE r f = (case r of Inl e \<Rightarrow> Inl e | Inr x \<Rightarrow> f x)"

text \<open>A \<open>for x in xs: body\<close> loop over a state: it stops at the first exception.\<close>

fun for_loop :: "('i \<Rightarrow> 's \<Rightarrow> error + 's) \<Rightarrow> 'i list \<Rightarrow> 's \<Rightarrow> error + 's" where
  "for_loop body [] s = Inr s"
| "for_loop body (x # xs) s =
     (case body x s of Inl e \<Rightarrow> Inl e | Inr s' \<Rightarrow> for_loop body xs s')"

subsection \<open>Digits, \<open>int(...)\<close> and \<open>str(...)\<close>\<close>

text \<open>
  \<open>str.isdigit\<close> holds for \<open>0\<close> .. \<open>9\<close> and, below code point 256, also for the
  superscripts two, three and one (178, 179, 185).  \<open>int\<close> accepts only the decimal
  digits \<open>0\<close> .. \<open>9\<close> among them and raises \<open>ValueError\<close> on the superscripts.
\<close>

definition isdecimal :: "char \<Rightarrow> bool" where
  "isdecimal c = (48 \<le> (of_char c :: nat) \<and> (of_char c :: nat) \<le> 57)"

definition isdigit :: "char \<Rightarrow> bool" where
  "isdigit c = (isdecimal c \<or> (of_char c :: nat) = 178 \<or> (of_char c :: nat) = 179
                 \<or> (of_char c :: nat) = 185)"

definition digit_value :: "char \<Rightarrow> int" where
  "digit_value c = int (of_char c) - 48"

text \<open>
  \<open>int(s)\<close> on the strings the notebooks pass to it: a single character, or a run of
  \<open>isdigit\<close> characters.  On those it returns the decimal value when every character is
  one of \<open>0\<close> .. \<open>9\<close> and raises \<open>ValueError\<close> otherwise.

  The interpreter also refuses, with \<open>ValueError\<close>, to convert a numeral of more than
  \<open>int_max_str_digits\<close> digits (4300 by default).  \<open>py_int\<close> is \<open>int\<close> without that
  limit: the two agree on every numeral of at most 4300 digits, and a property that reaches
  longer numerals states the limit as a hypothesis.
\<close>

definition int_max_str_digits :: nat where
  "int_max_str_digits = 4300"

definition py_int :: "string \<Rightarrow> error + int" where
  "py_int s = (if s \<noteq> [] \<and> list_all isdecimal s
               then Inr (foldl (\<lambda>a c. 10 * a + digit_value c) 0 s)
               else Inl ValueError)"

text \<open>The character of a decimal digit \<open>d < 10\<close>.\<close>

definition digit_char :: "nat \<Rightarrow> char" where
  "digit_char d = ''0123456789'' ! d"

fun str_nat :: "nat \<Rightarrow> string" where
  "str_nat n = (if n < 10 then [digit_char n] else str_nat (n div 10) @ [digit_char (n mod 10)])"

declare str_nat.simps [simp del]

text \<open>
  \<open>str(x)\<close> for an integer \<open>x\<close>, again without the limit of \<open>int_max_str_digits\<close>
  digits.
\<close>

definition str :: "int \<Rightarrow> string" where
  "str x = (if x < 0 then CHR ''-'' # str_nat (nat (- x)) else str_nat (nat x))"

section \<open>Run-length encoding (notebook 08)\<close>

text \<open>
  \<open>prev_char\<close> and \<open>last_char\<close> start as the empty string and later hold a string of
  one character, so they are strings here too; the loop variable is a character.
\<close>

definition encode_char_segment :: "string \<Rightarrow> int \<Rightarrow> string" where
  "encode_char_segment char counter = char @ (if counter > 1 then str counter else [])"

definition encode_step :: "char \<Rightarrow> string \<times> string \<times> int \<Rightarrow> string \<times> string \<times> int" where
  "encode_step c = (\<lambda>(output, prev_char, counter).
     if [c] = prev_char then (output, prev_char, counter + 1)
     else (output @ encode_char_segment prev_char counter, [c], 1))"

definition encode :: "string \<Rightarrow> string" where
  "encode text =
     (case fold encode_step text ([], [], 0) of
        (output, prev_char, counter) \<Rightarrow> output @ encode_char_segment prev_char counter)"

definition decode_char_segment :: "string \<Rightarrow> string \<Rightarrow> error + string" where
  "decode_char_segment char counter =
     bindE (if counter \<noteq> [] then py_int counter else Inr 1)
       (\<lambda>n. Inr (concat (replicate (nat n) char)))"

definition decode_step ::
  "char \<Rightarrow> string \<times> string \<times> string \<Rightarrow> error + (string \<times> string \<times> string)" where
  "decode_step c = (\<lambda>(output, last_char, counter).
     if isdigit c then Inr (output, last_char, counter @ [c])
     else bindE (decode_char_segment last_char counter)
            (\<lambda>seg. Inr (output @ seg, [c], [])))"

definition decode :: "string \<Rightarrow> error + string" where
  "decode text =
     bindE (for_loop decode_step text ([], [], []))
       (\<lambda>(output, last_char, counter).
          bindE (decode_char_segment last_char counter) (\<lambda>seg. Inr (output @ seg)))"

subsection \<open>Auxiliary notions for the run-length proofs\<close>

text \<open>What \<open>decode\<close> does after its loop, as a function of the loop's final state.\<close>

definition decode_finish :: "string \<times> string \<times> string \<Rightarrow> error + string" where
  "decode_finish = (\<lambda>(output, last_char, counter).
     bindE (decode_char_segment last_char counter) (\<lambda>seg. Inr (output @ seg)))"

text \<open>
  What \<open>encode\<close> still has to emit when it is inside a run of \<open>n\<close> characters \<open>c\<close> and
  the text \<open>t\<close> is left to read.
\<close>

fun runs :: "char \<Rightarrow> int \<Rightarrow> string \<Rightarrow> string" where
  "runs c n [] = encode_char_segment [c] n"
| "runs c n (x # t) =
     (if x = c then runs c (n + 1) t else encode_char_segment [c] n @ runs x 1 t)"

text \<open>
  Encoded strings in canonical form, described by their segments: a symbol \<open>c\<close> with a
  count \<open>n\<close> is written as \<open>c\<close> alone when \<open>n = 1\<close> and as \<open>c\<close> followed by the decimal
  numeral of \<open>n\<close> (no leading zero) when \<open>n \<ge> 2\<close>.  A segment list is canonical when no
  symbol is a digit, every count is at least 1 and neighbouring segments carry different
  symbols.
\<close>

definition render_segments :: "(char \<times> nat) list \<Rightarrow> string" where
  "render_segments segs =
     concat (map (\<lambda>(c, n). c # (if 2 \<le> n then str (int n) else [])) segs)"

definition expand_segments :: "(char \<times> nat) list \<Rightarrow> string" where
  "expand_segments segs = concat (map (\<lambda>(c, n). replicate n c) segs)"

definition canonical_segments :: "(char \<times> nat) list \<Rightarrow> bool" where
  "canonical_segments segs =
     (list_all (\<lambda>(c, n). \<not> isdigit c \<and> 1 \<le> n) segs \<and> distinct_adj (map fst segs))"

text \<open>
  The counts of a segment list are within the interpreter's limit when the decimal numeral
  of each has at most \<open>int_max_str_digits\<close> digits, so that \<open>int\<close> converts it in
  \<open>decode\<close> and \<open>str\<close> writes it in \<open>encode\<close>.
\<close>

definition counts_within_limit :: "(char \<times> nat) list \<Rightarrow> bool" where
  "counts_within_limit segs =
     list_all (\<lambda>(c, n). length (str (int n)) \<le> int_max_str_digits) segs"

section \<open>Diffie-Hellman key exchange simulation (notebook 10)\<close>

text \<open>
  \<open>random.randint(a, b)\<close> returns some integer of the closed interval from \<open>a\<close> to \<open>b\<close>
  and raises \<open>ValueError\<close> when the interval is empty.  The choice is an argument of the
  model: the natural number \<open>r\<close> selects the element, and every element of the interval
  is selected by some \<open>r\<close>.
\<close>

definition randint :: "int \<Rightarrow> int \<Rightarrow> nat \<Rightarrow> error + int" where
  "randint a b r = (if b < a then Inl ValueError else Inr (a + int r mod (b - a + 1)))"

text \<open>
  For \<open>num_of_digits < 1\<close> the bound \<open>10**(num_of_digits-1)\<close> has a negative exponent and
  is a float with a fractional part, which \<open>random.randint\<close> rejects: with \<open>TypeError\<close>
  in the Python 3.13 of the notebook (with \<open>ValueError\<close> before Python 3.12).
\<close>

definition generate_random_number :: "int \<Rightarrow> nat \<Rightarrow> error + int" where
  "generate_random_number num_of_digits r =
     (if num_of_digits < 1 then Inl TypeError
      else
        let range_start = 10 ^ nat (num_of_digits - 1);
            range_end = 10 ^ nat num_of_digits - 1
        in randint range_start range_end r)"

definition default_generator :: int where
  "default_generator = 3"

definition default_prime_modulus :: int where
  "default_prime_modulus = 136279841"

text \<open>
  \<open>(generator**power) % prime_modulus\<close>, with \<open>pow\<close> for the parameter \<open>power\<close>.
  The exponent is a natural number: the private keys are the only exponents the notebook
  uses and they are positive.  Python's \<open>%\<close> on integers is the floored remainder, as
  \<open>mod\<close> is; by zero it raises.
\<close>

definition produce_exchange_function :: "nat \<Rightarrow> int \<Rightarrow> int \<Rightarrow> error + int" where
  "produce_exchange_function pow generator prime_modulus =
     (if prime_modulus = 0 then Inl ZeroDivisionError
      else Inr (generator ^ pow mod prime_modulus))"

text \<open>
  \<open>generate_keys\<close> draws two random numbers and reads the clock twice.  The model takes
  the two random choices \<open>r1\<close>, \<open>r2\<close> and the rounded time difference
  \<open>generation_time\<close> (a float, left abstract) as arguments.
\<close>

definition generate_keys ::
  "int \<Rightarrow> nat \<Rightarrow> nat \<Rightarrow> 't \<Rightarrow> error + (int \<times> int \<times> int \<times> int \<times> int \<times> 't)" where
  "generate_keys key_size r1 r2 generation_time =
     bindE (generate_random_number key_size r1) (\<lambda>a_private_key.
     bindE (generate_random_number key_size r2) (\<lambda>b_private_key.
     bindE (produce_exchange_function (nat a_private_key) default_generator
              default_prime_modulus) (\<lambda>a_output.
     bindE (produce_exchange_function (nat b_private_key) default_generator
              default_prime_modulus) (\<lambda>b_output.
     bindE (produce_exchange_function (nat a_private_key) b_output
              default_prime_modulus) (\<lambda>a_public_key.
     bindE (produce_exchange_function (nat b_private_key) a_output
              default_prime_modulus) (\<lambda>b_public_key.
     if a_public_key \<noteq> b_public_key
     then Inl (DifferentPublicKeys a_public_key b_public_key)
     else Inr (a_private_key, b_private_key, a_output, b_output, a_public_key,
               generation_time)))))))"

section \<open>Hamming code (error-correction notebook)\<close>

subsection \<open>Indexing and slicing of strings\<close>

text \<open>
  \<open>s[i]\<close>: a negative index counts from the end; outside the string it raises
  \<open>IndexError\<close>.
\<close>

definition py_index :: "string \<Rightarrow> int \<Rightarrow> error + char" where
  "py_index s i =
     (if 0 \<le> i \<and> i < int (length s) then Inr (s ! nat i)
      else if - int (length s) \<le> i \<and> i < 0 then Inr (s ! nat (int (length s) + i))
      else Inl IndexError)"

text \<open>
  \<open>s[:k]\<close> and \<open>s[k:]\<close>: a negative bound counts from the end, and a bound outside the
  string is clamped to it; slices never raise.
\<close>

definition py_slice_to :: "string \<Rightarrow> int \<Rightarrow> string" where
  "py_slice_to s k = take (nat (if k < 0 then int (length s) + k else k)) s"

definition py_slice_from :: "string \<Rightarrow> int \<Rightarrow> string" where
  "py_slice_from s k = drop (nat (if k < 0 then int (length s) + k else k)) s"

subsection \<open>Step 1: the number of parity bits\<close>

text \<open>
  The \<open>while\<close> loop of \<open>calculate_parity_bits\<close>, started at \<open>p\<close>.  It recurses only
  while \<open>p + 1 \<le> 10\<close>, which is its termination argument.
\<close>

function calculate_parity_bits_loop :: "int \<Rightarrow> nat \<Rightarrow> error + nat" where
  "calculate_parity_bits_loop m p =
     (if 2 ^ p < m + int p + 1
      then (if p + 1 > 10 then Inl ValueError else calculate_parity_bits_loop m (p + 1))
      else Inr p)"
  by pat_completeness auto
termination
  by (relation "measure (\<lambda>(m, p). 10 - p)") auto

declare calculate_parity_bits_loop.simps [simp del]

definition calculate_parity_bits :: "int \<Rightarrow> error + int" where
  "calculate_parity_bits m = bindE (calculate_parity_bits_loop m 0) (\<lambda>p. Inr (int p))"

subsection \<open>Step 2: positioning the parity bits\<close>

text \<open>
  The body of the loop over \<open>i\<close> in \<open>range(1, m + p + 1)\<close>; the state is \<open>(j, k, result)\<close>.
  The loop variables of all the ranges below start at 0 or 1, so they are naturals.
\<close>

definition position_step ::
  "string \<Rightarrow> nat \<Rightarrow> nat \<times> nat \<times> string \<Rightarrow> error + (nat \<times> nat \<times> string)" where
  "position_step data i = (\<lambda>(j, k, result).
     if i = 2 ^ j then Inr (j + 1, k, result @ ''0'')
     else bindE (py_index data (- int k)) (\<lambda>c. Inr (j, k + 1, result @ [c])))"

definition position_parity_bits :: "string \<Rightarrow> int \<Rightarrow> error + string" where
  "position_parity_bits data p =
     (let m = int (length data)
      in bindE (for_loop (position_step data) [1..<nat (m + p + 1)] (0, 1, []))
           (\<lambda>(j, k, result). Inr (rev result)))"

subsection \<open>Step 3: the values of the parity bits\<close>

text \<open>
  The body of the inner loop over \<open>j\<close> in \<open>range(1, n + 1)\<close>, shared by
  \<open>calculate_parity_values\<close> and \<open>detect_correct_error\<close>; the state is \<open>val\<close>.
\<close>

definition parity_step :: "string \<Rightarrow> nat \<Rightarrow> nat \<Rightarrow> int \<Rightarrow> error + int" where
  "parity_step code i j val =
     (if j AND 2 ^ i = 2 ^ i
      then bindE (py_index code (- int j)) (\<lambda>c.
           bindE (py_int [c]) (\<lambda>b. Inr (val XOR b)))
      else Inr val)"

text \<open>The body of the outer loop over \<open>i\<close> in \<open>range(p)\<close>; the state is \<open>code\<close>.\<close>

definition parity_values_step :: "nat \<Rightarrow> nat \<Rightarrow> string \<Rightarrow> error + string" where
  "parity_values_step n i code =
     bindE (for_loop (parity_step code i) [1..<n + 1] 0) (\<lambda>val.
       Inr (py_slice_to code (int n - 2 ^ i) @ str val
            @ py_slice_from code (int n - 2 ^ i + 1)))"

definition calculate_parity_values :: "string \<Rightarrow> int \<Rightarrow> error + string" where
  "calculate_parity_values code p =
     (let n = length code in for_loop (parity_values_step n) [0..<nat p] code)"

subsection \<open>Step 4: error detection and correction\<close>

text \<open>
  The first loop of \<open>detect_correct_error\<close>, which computes \<open>error_pos\<close>, as a function of
  its own: the body of the loop over \<open>i\<close> in \<open>range(p)\<close>, and the loop.
\<close>

definition error_pos_step :: "string \<Rightarrow> nat \<Rightarrow> nat \<Rightarrow> int \<Rightarrow> error + int" where
  "error_pos_step code n i error_pos =
     bindE (for_loop (parity_step code i) [1..<n + 1] 0) (\<lambda>val.
       Inr (error_pos + val * 2 ^ i))"

definition error_position :: "string \<Rightarrow> int \<Rightarrow> error + int" where
  "error_position code p =
     (let n = length code in for_loop (error_pos_step code n) [0..<nat p] 0)"

definition detect_correct_error :: "string \<Rightarrow> int \<Rightarrow> error + string" where
  "detect_correct_error code p =
     (let n = int (length code)
      in bindE (error_position code p) (\<lambda>error_pos.
           if error_pos \<noteq> 0
           then bindE (py_index code (n - error_pos)) (\<lambda>c.
                bindE (py_int [c]) (\<lambda>b.
                  Inr (py_slice_to code (n - error_pos) @ str (1 - b)
                       @ py_slice_from code (n - error_pos + 1))))
           else Inr code))"

definition remove_parity_bits :: "string \<Rightarrow> int \<Rightarrow> string" where
  "remove_parity_bits code p =
     (let parity_positions = map (\<lambda>i. (2::int) ^ i) [0..<nat p];
          code_len = length code;
          parity_positions = map (\<lambda>i. int code_len - i) parity_positions
      in fold (\<lambda>i decoded. if int i \<notin> set parity_positions then decoded @ [code ! i]
                            else decoded)
           [0..<code_len] [])"

subsection \<open>The demonstration's noise\<close>

text \<open>
  \<open>add_noise\<close> flips the character at a random index.  \<open>flip_at\<close> is its return
  expression for a given \<open>noise_position\<close>; the random choice is the argument \<open>r\<close>.
\<close>

definition flip_at :: "string \<Rightarrow> int \<Rightarrow> error + string" where
  "flip_at code noise_position =
     bindE (py_index code noise_position) (\<lambda>c.
     bindE (py_int [c]) (\<lambda>b.
       Inr (py_slice_to code noise_position @ str (1 - b)
            @ py_slice_from code (noise_position + 1))))"

definition add_noise :: "string \<Rightarrow> nat \<Rightarrow> error + string" where
  "add_noise code r =
     bindE (randint 0 (int (length code) - 1) r) (\<lambda>noise_position.
       flip_at code noise_position)"

subsection \<open>Notions for stating and proving the Hamming properties\<close>

text \<open>A bit string is a string over the characters \<open>0\<close> and \<open>1\<close>.\<close>

definition bit_string :: "string \<Rightarrow> bool" where
  "bit_string s = (set s \<subseteq> {CHR ''0'', CHR ''1''})"

definition bit_char :: "bool \<Rightarrow> char" where
  "bit_char b = (if b then CHR ''1'' else CHR ''0'')"

text \<open>
  Positions of a code word are counted from 1 at the right end, as the code does with
  \<open>code[-j]\<close>: \<open>bitv code j\<close> tells whether the bit at position \<open>j\<close> is set, and
  \<open>bit_at code j\<close> is its value.
\<close>

definition bitv :: "string \<Rightarrow> nat \<Rightarrow> bool" where
  "bitv code j = (code ! (length code - j) = CHR ''1'')"

definition bit_at :: "string \<Rightarrow> nat \<Rightarrow> int" where
  "bit_at code pos = (if code ! (length code - pos) = CHR ''1'' then 1 else 0)"

text \<open>
  The positions that parity bit \<open>i\<close> covers are those whose binary index has bit \<open>i\<close>
  set.  \<open>ones code i\<close> are the covered positions that hold a 1, \<open>par code i\<close> is the
  parity of their number, and \<open>xor_list\<close> is the exclusive or of a list of bit values.
\<close>

definition parity_group :: "string \<Rightarrow> nat \<Rightarrow> nat list" where
  "parity_group code i = filter (\<lambda>j. bit j i) [1..<Suc (length code)]"

definition ones :: "string \<Rightarrow> nat \<Rightarrow> nat set" where
  "ones code i = {j. 1 \<le> j \<and> j \<le> length code \<and> bit j i \<and> bitv code j}"

definition par :: "string \<Rightarrow> nat \<Rightarrow> bool" where
  "par code i = odd (card (ones code i))"

definition xor_list :: "int list \<Rightarrow> int" where
  "xor_list xs = fold (\<lambda>x acc. acc XOR x) xs 0"

text \<open>The sum that the first loop of \<open>detect_correct_error\<close> computes on a bit string.\<close>

definition syndrome :: "string \<Rightarrow> nat \<Rightarrow> int" where
  "syndrome code p = (\<Sum>i<p. of_bool (par code i) * 2 ^ i)"

text \<open>A position is a parity position when it is a power of two.\<close>

definition is_power_of_two :: "nat \<Rightarrow> bool" where
  "is_power_of_two k = (k \<in> (\<lambda>e. 2 ^ e) ` {0..<k})"

text \<open>
  The invariant of the loop of \<open>position_parity_bits\<close> after \<open>t\<close> positions: \<open>j\<close> counts
  the powers of two up to \<open>t\<close>, \<open>k - 1\<close> data bits have been placed, in the order of the
  reversed data, at the positions that are not powers of two, and the powers of two hold
  the placeholder \<open>0\<close>.
\<close>

definition position_inv :: "string \<Rightarrow> nat \<Rightarrow> nat \<times> nat \<times> string \<Rightarrow> bool" where
  "position_inv data t = (\<lambda>(j, k, result).
     length result = t \<and> t < 2 ^ j \<and> (\<forall>e<j. 2 ^ e \<le> t) \<and> k + j = t + 1 \<and> 1 \<le> k
     \<and> map (\<lambda>i. result ! (i - 1)) (filter (\<lambda>i. \<not> is_power_of_two i) [1..<Suc t])
         = take (k - 1) (rev data)
     \<and> (\<forall>e. 2 ^ e \<le> t \<longrightarrow> result ! (2 ^ e - 1) = CHR ''0'')
     \<and> set result \<subseteq> insert CHR ''0'' (set data))"

section \<open>Facts about the shared Python model\<close>

lemma for_loop_append:
  "for_loop body (xs @ ys) s = bindE (for_loop body xs s) (for_loop body ys)"
  by (induction xs arbitrary: s) (auto simp: bindE_def split: sum.splits)

lemma digit_char_props: "d < 10 \<Longrightarrow> isdecimal (digit_char d) \<and> digit_value (digit_char d) = int d"
proof -
  assume "d < 10"
  then have "d \<in> {0,1,2,3,4,5,6,7,8,9}" by auto
  then show ?thesis by (auto simp: digit_char_def isdecimal_def digit_value_def)
qed

lemma str_nat_props:
  "list_all isdecimal (str_nat n) \<and> str_nat n \<noteq> [] \<and>
   foldl (\<lambda>a c. 10 * a + digit_value c) 0 (str_nat n) = int n"
proof (induction n rule: str_nat.induct)
  case (1 n)
  show ?case
  proof (cases "n < 10")
    case True
    then show ?thesis using digit_char_props[of n] by (simp add: str_nat.simps[of n])
  next
    case False
    have m: "n mod 10 < 10" by simp
    have "10 * int (n div 10) + int (n mod 10) = int n" by presburger
    with False 1 digit_char_props[OF m] show ?thesis
      by (simp add: str_nat.simps[of n])
  qed
qed

lemma py_int_str: "0 \<le> x \<Longrightarrow> py_int (str x) = Inr x"
  using str_nat_props[of "nat x"] by (simp add: py_int_def str_def)

lemma str_isdigit: "0 \<le> x \<Longrightarrow> list_all isdigit (str x)"
  using str_nat_props[of "nat x"] by (auto simp add: str_def isdigit_def list_all_iff)

lemma str_nonempty: "str x \<noteq> []"
  using str_nat_props[of "nat x"] by (simp add: str_def)

section \<open>Run-length encoding: round trips\<close>

lemma decode_digits:
  "list_all isdigit ds \<Longrightarrow>
   for_loop decode_step ds (out, lc, cnt) = Inr (out, lc, cnt @ ds)"
  by (induction ds arbitrary: cnt) (auto simp: decode_step_def)

lemma decode_segment:
  assumes "\<not> isdigit c" "list_all isdigit ds" "decode_char_segment lc cnt = Inr pre"
  shows "for_loop decode_step (c # ds) (out, lc, cnt) = Inr (out @ pre, [c], ds)"
  using assms decode_digits[of ds "out @ pre" "[c]" "[]"]
  by (simp add: decode_step_def bindE_def)

lemma decode_counted:
  "1 \<le> n \<Longrightarrow>
   decode_char_segment [c] (if n > 1 then str n else []) = Inr (replicate (nat n) c)"
proof (induction "nat n")
  case 0 then show ?case by simp
next
  case (Suc k)
  have "concat (replicate m [c]) = replicate m c" for m
    by (induction m) auto
  then show ?case using Suc
    by (auto simp: decode_char_segment_def bindE_def py_int_str str_nonempty)
qed

lemma encode_from:
  "(case fold encode_step t (out, [c], n) of
      (output, prev_char, counter) \<Rightarrow> output @ encode_char_segment prev_char counter)
   = out @ runs c n t"
  by (induction t arbitrary: out c n) (auto simp: encode_step_def)

lemma encode_Cons: "encode (c # t) = runs c 1 t"
  using encode_from[of t "[]" c 1]
  by (simp add: encode_def encode_step_def encode_char_segment_def)

lemma encode_Nil: "encode [] = []"
  by (simp add: encode_def encode_char_segment_def)

lemma decode_runs:
  assumes "\<not> isdigit c" "\<forall>x\<in>set t. \<not> isdigit x" "1 \<le> n"
    "decode_char_segment lc cnt = Inr pre"
  shows "bindE (for_loop decode_step (runs c n t) (out, lc, cnt)) decode_finish
         = Inr (out @ pre @ replicate (nat n) c @ t)"
  using assms
proof (induction t arbitrary: c n out lc cnt pre)
  case Nil
  have ds: "list_all isdigit (if n > 1 then str n else [])"
    using Nil.prems(3) by (simp add: str_isdigit)
  show ?case
    using decode_segment[OF Nil.prems(1) ds Nil.prems(4), of out] decode_counted[OF Nil.prems(3), of c]
    by (simp add: encode_char_segment_def bindE_def decode_finish_def)
next
  case (Cons x t)
  show ?case
  proof (cases "x = c")
    case True
    have "replicate (nat (n + 1)) c = replicate (nat n) c @ [c]"
      using Cons.prems(3) by (simp add: nat_add_distrib replicate_append_same)
    then show ?thesis
      using Cons.IH[of c "n + 1" lc cnt pre out] Cons.prems True by simp
  next
    case False
    have ds: "list_all isdigit (if n > 1 then str n else [])"
      using Cons.prems(3) by (simp add: str_isdigit)
    have nx: "\<not> isdigit x" and nt: "\<forall>y\<in>set t. \<not> isdigit y" using Cons.prems(2) by auto
    have seg: "for_loop decode_step (encode_char_segment [c] n) (out, lc, cnt)
               = Inr (out @ pre, [c], if n > 1 then str n else [])"
      using decode_segment[OF Cons.prems(1) ds Cons.prems(4), of out]
      by (simp add: encode_char_segment_def)
    have "bindE (for_loop decode_step (runs x 1 t) (out @ pre, [c], if n > 1 then str n else []))
            decode_finish = Inr ((out @ pre) @ replicate (nat n) c @ replicate (nat 1) x @ t)"
      using Cons.IH[OF nx nt _ decode_counted[OF Cons.prems(3), of c], of 1 "out @ pre"] by simp
    then show ?thesis using False seg
      by (simp add: for_loop_append bindE_def)
  qed
qed

lemma decode_encode:
  assumes "\<forall>c\<in>set s. \<not> isdigit c"
  shows "decode (encode s) = Inr s"
proof (cases s)
  case Nil
  then show ?thesis
    by (simp add: encode_Nil decode_def decode_char_segment_def bindE_def)
next
  case (Cons c t)
  have e: "decode_char_segment [] [] = Inr []"
    by (simp add: decode_char_segment_def bindE_def)
  have "bindE (for_loop decode_step (runs c 1 t) ([], [], [])) decode_finish
        = Inr ([] @ [] @ replicate (nat 1) c @ t)"
    using assms Cons by (intro decode_runs[OF _ _ _ e]) auto
  then show ?thesis using Cons
    by (simp add: encode_Cons decode_def decode_finish_def)
qed


lemma runs_replicate: "runs c n (replicate k c @ t) = runs c (n + int k) t"
  by (induction k arbitrary: n) (auto simp: algebra_simps)

lemma runs_expand:
  assumes "canonical_segments segs" "segs = [] \<or> fst (hd segs) \<noteq> c"
  shows "runs c n (expand_segments segs) = encode_char_segment [c] n @ render_segments segs"
  using assms
proof (induction segs arbitrary: c n)
  case Nil
  then show ?case by (simp add: expand_segments_def render_segments_def)
next
  case (Cons a segs)
  obtain x k where a: "a = (x, k)" by (cases a)
  from Cons.prems a have xc: "x \<noteq> c" and k: "1 \<le> k" 
    and can: "canonical_segments segs" and nxt: "segs = [] \<or> fst (hd segs) \<noteq> x"
    by (auto simp: canonical_segments_def distinct_adj_Cons neq_Nil_conv)
  from k obtain k' where k': "k = Suc k'" by (cases k) auto
  have "runs c n (expand_segments (a # segs))
        = encode_char_segment [c] n @ runs x 1 (replicate k' x @ expand_segments segs)"
    using a k' xc by (simp add: expand_segments_def)
  also have "runs x 1 (replicate k' x @ expand_segments segs) = runs x (int k) (expand_segments segs)"
    using k' by (simp add: runs_replicate)
  also have "\<dots> = encode_char_segment [x] (int k) @ render_segments segs"
    using Cons.IH[OF can nxt] .
  also have "encode_char_segment [x] (int k) @ render_segments segs = render_segments (a # segs)"
    using a by (simp add: render_segments_def encode_char_segment_def)
  finally show ?case .
qed

lemma expand_no_digit:
  "canonical_segments segs \<Longrightarrow> \<forall>c\<in>set (expand_segments segs). \<not> isdigit c"
  by (auto simp: canonical_segments_def expand_segments_def list_all_iff)

lemma encode_expand:
  assumes "canonical_segments segs"
  shows "encode (expand_segments segs) = render_segments segs"
proof (cases segs)
  case Nil
  then show ?thesis by (simp add: expand_segments_def render_segments_def encode_Nil)
next
  case (Cons a segs')
  obtain x k where a: "a = (x, k)" by (cases a)
  from assms Cons a have k: "1 \<le> k" 
    and can: "canonical_segments segs'" and nxt: "segs' = [] \<or> fst (hd segs') \<noteq> x"
    by (auto simp: canonical_segments_def distinct_adj_Cons neq_Nil_conv)
  from k obtain k' where k': "k = Suc k'" by (cases k) auto
  have "encode (expand_segments segs) = runs x 1 (replicate k' x @ expand_segments segs')"
    using Cons a k' by (simp add: expand_segments_def encode_Cons)
  also have "\<dots> = runs x (int k) (expand_segments segs')"
    using k' by (simp add: runs_replicate)
  also have "\<dots> = encode_char_segment [x] (int k) @ render_segments segs'"
    using runs_expand[OF can nxt] .
  also have "\<dots> = render_segments segs"
    using Cons a by (simp add: render_segments_def encode_char_segment_def)
  finally show ?thesis .
qed

text \<open>
  Claim C9: \<open>encode("AABCCCDEEEE") == "A2BC3DE4"\<close> and
  \<open>decode("A2BC3DE4") == "AABCCCDEEEE"\<close>.
\<close>

theorem encode_decode_example:
  "encode ''AABCCCDEEEE'' = ''A2BC3DE4'' \<and> decode ''A2BC3DE4'' = Inr ''AABCCCDEEEE''"
  by code_simp

text \<open>
  Claim C3: for every string \<open>s\<close> that contains no digit character,
  \<open>decode(encode(s))\<close> returns \<open>s\<close>, whatever the lengths of its runs (a run of ten or
  more characters gets a count of several digits).
\<close>

theorem decode_encode_roundtrip:
  assumes "\<forall>c\<in>set s. \<not> isdigit c"
  shows "decode (encode s) = Inr s"
  using assms by (rule decode_encode)

theorem decode_encode_roundtrip_witness:
  "encode ''AAAAAAAAAAAAB'' = ''A12B''
   \<and> decode (encode ''AAAAAAAAAAAAB'') = Inr ''AAAAAAAAAAAAB''"
proof -
  have h: "\<forall>c\<in>set ''AAAAAAAAAAAAB''. \<not> isdigit c"
    by (simp add: isdigit_def isdecimal_def)
  have e: "encode ''AAAAAAAAAAAAB'' = ''A12B''" by code_simp
  show ?thesis using decode_encode_roundtrip [OF h] e by simp
qed

text \<open>
  Claim C4, as stated: for every encoded string \<open>e\<close> made of segments, each a non-digit
  symbol possibly followed by digits, \<open>encode(decode(e)) == e\<close>.  It fails on the code at
  \<open>"A1"\<close>: \<open>decode\<close> gives \<open>"A"\<close>, and \<open>encode\<close> never writes a count of 1.
\<close>

theorem encode_decode_counterexample:
  "decode ''A1'' = Inr ''A'' \<and> encode ''A'' = ''A'' \<and> ''A'' \<noteq> ''A1''"
  by code_simp

text \<open>
  Claim C4, amended: for every encoded string \<open>e\<close> in canonical form (each segment a
  non-digit symbol, followed by its count in decimal without leading zero when the count is
  at least 2 and by nothing when it is 1, neighbouring segments with different symbols)
  whose counts have at most 4300 digits each, the interpreter's limit for \<open>int\<close> and
  \<open>str\<close>, \<open>decode(e)\<close> returns the expanded text and \<open>encode\<close> of that text is \<open>e\<close>
  again.
\<close>

theorem encode_decode_canonical:
  assumes "canonical_segments segs" and "counts_within_limit segs"
  shows "decode (render_segments segs) = Inr (expand_segments segs)
         \<and> encode (expand_segments segs) = render_segments segs"
  using decode_encode [OF expand_no_digit [OF assms(1)]] encode_expand [OF assms(1)] by simp

theorem encode_decode_canonical_witness:
  "canonical_segments [(CHR ''A'', 2), (CHR ''B'', 1), (CHR ''C'', 12)]
   \<and> counts_within_limit [(CHR ''A'', 2), (CHR ''B'', 1), (CHR ''C'', 12)]
   \<and> render_segments [(CHR ''A'', 2), (CHR ''B'', 1), (CHR ''C'', 12)] = ''A2BC12''
   \<and> decode ''A2BC12'' = Inr ''AABCCCCCCCCCCCC''
   \<and> encode ''AABCCCCCCCCCCCC'' = ''A2BC12''"
proof -
  have c: "canonical_segments [(CHR ''A'', 2), (CHR ''B'', 1), (CHR ''C'', 12)]"
    by (simp add: canonical_segments_def isdigit_def isdecimal_def)
  have l: "counts_within_limit [(CHR ''A'', 2), (CHR ''B'', 1), (CHR ''C'', 12)]"
    by (simp add: counts_within_limit_def int_max_str_digits_def str_def str_nat.simps)
  have r: "render_segments [(CHR ''A'', 2), (CHR ''B'', 1), (CHR ''C'', 12)] = ''A2BC12''"
    by code_simp
  have e: "expand_segments [(CHR ''A'', 2), (CHR ''B'', 1), (CHR ''C'', 12)]
           = ''AABCCCCCCCCCCCC''"
    by code_simp
  show ?thesis using encode_decode_canonical [OF c l] c l r e by simp
qed

section \<open>Key exchange: both parties derive the same key\<close>

lemma exchange_commutes:
  "((g ^ b mod m) ^ a mod m :: int) = (g ^ a mod m) ^ b mod m"
  by (simp add: power_mod mult.commute flip: power_mult)

lemma default_prime_modulus_nonzero: "default_prime_modulus \<noteq> 0"
  by (simp add: default_prime_modulus_def)

lemma produce_exchange_function_default:
  "produce_exchange_function p g default_prime_modulus = Inr (g ^ p mod default_prime_modulus)"
  by (simp add: produce_exchange_function_def default_prime_modulus_nonzero)

lemma generate_random_number_range:
  assumes "1 \<le> k"
  shows "\<exists>x. generate_random_number k r = Inr x \<and> 10 ^ nat (k - 1) \<le> x \<and> x \<le> 10 ^ nat k - 1"
proof -
  define A :: int where "A = 10 ^ nat (k - 1)"
  define B :: int where "B = 10 ^ nat k"
  have "nat k = Suc (nat (k - 1))" using assms by simp
  then have "(10::int) ^ nat k = 10 * 10 ^ nat (k - 1)" by simp
  then have BA: "B = 10 * A" by (simp add: A_def B_def)
  have A1: "1 \<le> A" by (simp add: A_def)
  have w: "0 < B - 1 - A + 1" using BA A1 by linarith
  have m: "0 \<le> int r mod (B - 1 - A + 1) \<and> int r mod (B - 1 - A + 1) < B - 1 - A + 1"
    using w by simp
  have "\<not> B - 1 < A" using BA A1 by linarith
  then have "generate_random_number k r = Inr (A + int r mod (B - 1 - A + 1))"
    using assms unfolding A_def B_def
    by (simp add: generate_random_number_def randint_def Let_def)
  moreover have "A \<le> A + int r mod (B - 1 - A + 1)" using m by linarith
  moreover have "A + int r mod (B - 1 - A + 1) \<le> B - 1" using m by linarith
  ultimately show ?thesis unfolding A_def B_def by blast
qed

lemma generate_keys_returns:
  assumes "1 \<le> key_size"
  shows "\<exists>a b ao bo k. generate_keys key_size r1 r2 t = Inr (a, b, ao, bo, k, t)"
proof -
  obtain a where a: "generate_random_number key_size r1 = Inr a"
    using generate_random_number_range[OF assms] by blast
  obtain b where b: "generate_random_number key_size r2 = Inr b"
    using generate_random_number_range[OF assms] by blast
  show ?thesis
    by (simp add: generate_keys_def a b bindE_def produce_exchange_function_default
         exchange_commutes)
qed

lemma generate_keys_small: "key_size < 1 \<Longrightarrow> generate_keys key_size r1 r2 t = Inl TypeError"
  by (simp add: generate_keys_def generate_random_number_def bindE_def)

lemma generate_keys_never_differs:
  "generate_keys key_size r1 r2 t \<noteq> Inl (DifferentPublicKeys x y)"
proof (cases "1 \<le> key_size")
  case True
  then show ?thesis using generate_keys_returns[OF True, of r1 r2 t] by auto
next
  case False
  then show ?thesis by (simp add: generate_keys_small)
qed

text \<open>
  Claim C2: for all private exponents \<open>a\<close> and \<open>b\<close> (the positive integers the key
  generation produces among them), raising the base 3 to \<open>a\<close> modulo 136279841 and then
  the output to \<open>b\<close> gives the same value as the two exponentiations in the other order:
  the two public keys that \<open>generate_keys\<close> computes are equal.
\<close>

theorem public_keys_agree:
  "\<exists>a_output b_output key.
     produce_exchange_function a default_generator default_prime_modulus = Inr a_output \<and>
     produce_exchange_function b default_generator default_prime_modulus = Inr b_output \<and>
     produce_exchange_function a b_output default_prime_modulus = Inr key \<and>
     produce_exchange_function b a_output default_prime_modulus = Inr key \<and>
     default_generator = 3 \<and> default_prime_modulus = 136279841"
  by (simp add: produce_exchange_function_default exchange_commutes)
     (simp add: default_generator_def default_prime_modulus_def)

text \<open>
  Claim C8, as stated: \<open>generate_keys\<close> raises if and only if the two derived public keys
  disagree, and so always returns its 6-tuple.  It fails at \<open>key_size = 0\<close>, where the
  random number generation raises before any key is derived.
\<close>

theorem generate_keys_counterexample:
  "generate_keys 0 0 0 () = Inl TypeError"
  by (simp add: generate_keys_def generate_random_number_def bindE_def)

text \<open>
  Claim C8, amended: for every \<open>key_size \<ge> 1\<close>, whatever the random choices,
  \<open>generate_keys\<close> returns its 6-tuple normally: two private keys of \<open>key_size\<close> decimal
  digits, their two exchange outputs, and the public key, which is what each party derives
  from the other's output.  The exception for disagreeing public keys is raised for no
  \<open>key_size\<close> at all; for \<open>key_size < 1\<close> the call raises \<open>TypeError\<close> instead.
\<close>

theorem generate_keys_outcome:
  "(1 \<le> key_size \<longrightarrow>
      (\<exists>a b a_output b_output key.
         generate_keys key_size r1 r2 t = Inr (a, b, a_output, b_output, key, t) \<and>
         10 ^ nat (key_size - 1) \<le> a \<and> a \<le> 10 ^ nat key_size - 1 \<and>
         10 ^ nat (key_size - 1) \<le> b \<and> b \<le> 10 ^ nat key_size - 1 \<and>
         produce_exchange_function (nat a) default_generator default_prime_modulus
           = Inr a_output \<and>
         produce_exchange_function (nat b) default_generator default_prime_modulus
           = Inr b_output \<and>
         produce_exchange_function (nat a) b_output default_prime_modulus = Inr key \<and>
         produce_exchange_function (nat b) a_output default_prime_modulus = Inr key))
   \<and> (key_size < 1 \<longrightarrow> generate_keys key_size r1 r2 t = Inl TypeError)
   \<and> (\<forall>x y. generate_keys key_size r1 r2 t \<noteq> Inl (DifferentPublicKeys x y))"
proof (intro conjI impI allI)
  assume k: "1 \<le> key_size"
  obtain a where a: "generate_random_number key_size r1 = Inr a"
    "10 ^ nat (key_size - 1) \<le> a" "a \<le> 10 ^ nat key_size - 1"
    using generate_random_number_range [OF k] by blast
  obtain b where b: "generate_random_number key_size r2 = Inr b"
    "10 ^ nat (key_size - 1) \<le> b" "b \<le> 10 ^ nat key_size - 1"
    using generate_random_number_range [OF k] by blast
  have "generate_keys key_size r1 r2 t =
        Inr (a, b, default_generator ^ nat a mod default_prime_modulus,
             default_generator ^ nat b mod default_prime_modulus,
             (default_generator ^ nat b mod default_prime_modulus) ^ nat a
               mod default_prime_modulus, t)"
    by (simp add: generate_keys_def a(1) b(1) bindE_def produce_exchange_function_default
        exchange_commutes)
  then show "\<exists>a b a_output b_output key.
         generate_keys key_size r1 r2 t = Inr (a, b, a_output, b_output, key, t) \<and>
         10 ^ nat (key_size - 1) \<le> a \<and> a \<le> 10 ^ nat key_size - 1 \<and>
         10 ^ nat (key_size - 1) \<le> b \<and> b \<le> 10 ^ nat key_size - 1 \<and>
         produce_exchange_function (nat a) default_generator default_prime_modulus
           = Inr a_output \<and>
         produce_exchange_function (nat b) default_generator default_prime_modulus
           = Inr b_output \<and>
         produce_exchange_function (nat a) b_output default_prime_modulus = Inr key \<and>
         produce_exchange_function (nat b) a_output default_prime_modulus = Inr key"
    using a(2,3) b(2,3)
    by (simp add: produce_exchange_function_default exchange_commutes)
next
  assume "key_size < 1"
  then show "generate_keys key_size r1 r2 t = Inl TypeError"
    by (rule generate_keys_small)
next
  fix x y
  show "generate_keys key_size r1 r2 t \<noteq> Inl (DifferentPublicKeys x y)"
    by (rule generate_keys_never_differs)
qed

theorem generate_keys_outcome_witness:
  "generate_keys 1 2 3 () = Inr (3, 4, 27, 81, 531441, ())
   \<and> (\<exists>a b a_output b_output key.
         generate_keys 1 2 3 () = Inr (a, b, a_output, b_output, key, ()) \<and>
         10 ^ nat (1 - 1) \<le> a \<and> a \<le> 10 ^ nat 1 - 1 \<and>
         10 ^ nat (1 - 1) \<le> b \<and> b \<le> 10 ^ nat 1 - 1 \<and>
         produce_exchange_function (nat a) default_generator default_prime_modulus
           = Inr a_output \<and>
         produce_exchange_function (nat b) default_generator default_prime_modulus
           = Inr b_output \<and>
         produce_exchange_function (nat a) b_output default_prime_modulus = Inr key \<and>
         produce_exchange_function (nat b) a_output default_prime_modulus = Inr key)"
proof -
  have h: "(1::int) \<le> 1" by simp
  have a: "generate_random_number 1 2 = Inr 3" "generate_random_number 1 3 = Inr 4"
    by (simp_all add: generate_random_number_def randint_def)
  have o: "produce_exchange_function 3 default_generator default_prime_modulus = Inr 27"
    "produce_exchange_function 4 default_generator default_prime_modulus = Inr 81"
    by (simp_all add: produce_exchange_function_def default_generator_def
        default_prime_modulus_def)
  have k: "produce_exchange_function 3 81 default_prime_modulus = Inr 531441"
    "produce_exchange_function 4 27 default_prime_modulus = Inr 531441"
    by (simp_all add: produce_exchange_function_def default_prime_modulus_def)
  have e: "generate_keys 1 2 3 () = Inr (3, 4, 27, 81, 531441, ())"
    by (simp add: generate_keys_def a o k bindE_def)
  from generate_keys_outcome [of 1 2 3 "()"] h
  have "\<exists>a b a_output b_output key.
         generate_keys 1 2 3 () = Inr (a, b, a_output, b_output, key, ()) \<and>
         10 ^ nat (1 - 1) \<le> a \<and> a \<le> 10 ^ nat 1 - 1 \<and>
         10 ^ nat (1 - 1) \<le> b \<and> b \<le> 10 ^ nat 1 - 1 \<and>
         produce_exchange_function (nat a) default_generator default_prime_modulus
           = Inr a_output \<and>
         produce_exchange_function (nat b) default_generator default_prime_modulus
           = Inr b_output \<and>
         produce_exchange_function (nat a) b_output default_prime_modulus = Inr key \<and>
         produce_exchange_function (nat b) a_output default_prime_modulus = Inr key"
    by blast
  with e show ?thesis by blast
qed

section \<open>Hamming code: the number of parity bits\<close>

lemma calculate_parity_bits_loop_Inr:
  assumes "calculate_parity_bits_loop m p0 = Inr p" "\<forall>q<p0. 2 ^ q < m + int q + 1" "p0 \<le> 10"
  shows "p \<le> 10 \<and> m + int p + 1 \<le> 2 ^ p \<and> (\<forall>q<p. 2 ^ q < m + int q + 1)"
  using assms
proof (induction m p0 rule: calculate_parity_bits_loop.induct)
  case (1 m p0)
  show ?case
  proof (cases "2 ^ p0 < m + int p0 + 1")
    case True
    with "1.prems"(1) have small: "\<not> p0 + 1 > 10" and rec: "calculate_parity_bits_loop m (p0 + 1) = Inr p"
      by (auto simp: calculate_parity_bits_loop.simps[of m p0] split: if_splits)
    have "\<forall>q<p0 + 1. 2 ^ q < m + int q + 1"
      using "1.prems"(2) True by (auto simp: less_Suc_eq)
    then show ?thesis using "1.IH"[OF True small rec] small by simp
  next
    case False
    with "1.prems" show ?thesis
      by (auto simp: calculate_parity_bits_loop.simps[of m p0])
  qed
qed

lemma calculate_parity_bits_loop_Inl:
  assumes "calculate_parity_bits_loop m p0 = Inl e" "\<forall>q<p0. 2 ^ q < m + int q + 1" "p0 \<le> 10"
  shows "e = ValueError \<and> (\<forall>q\<le>10. 2 ^ q < m + int q + 1)"
  using assms
proof (induction m p0 rule: calculate_parity_bits_loop.induct)
  case (1 m p0)
  show ?case
  proof (cases "2 ^ p0 < m + int p0 + 1")
    case True
    show ?thesis
    proof (cases "p0 + 1 > 10")
      case big: True
      with "1.prems"(3) have p0: "p0 = 10" by simp
      from "1.prems"(1) True big have "e = ValueError"
        by (simp add: calculate_parity_bits_loop.simps[of m p0])
      moreover have "\<forall>q\<le>10. 2 ^ q < m + int q + 1"
        using "1.prems"(2) True p0 by (auto simp: le_less)
      ultimately show ?thesis by simp
    next
      case small: False
      with True "1.prems"(1) have rec: "calculate_parity_bits_loop m (p0 + 1) = Inl e"
        by (auto simp: calculate_parity_bits_loop.simps[of m p0] split: if_splits)
      have "\<forall>q<p0 + 1. 2 ^ q < m + int q + 1"
        using "1.prems"(2) True by (auto simp: less_Suc_eq)
      then show ?thesis using "1.IH"[OF True small rec] small by simp
    qed
  next
    case False
    with "1.prems" show ?thesis
      by (auto simp: calculate_parity_bits_loop.simps[of m p0])
  qed
qed

lemma calculate_parity_bits_Inr:
  assumes "calculate_parity_bits m = Inr p"
  shows "\<exists>q. p = int q \<and> q \<le> 10 \<and> m + int q + 1 \<le> 2 ^ q \<and> (\<forall>q'<q. 2 ^ q' < m + int q' + 1)"
proof -
  from assms obtain q where q: "calculate_parity_bits_loop m 0 = Inr q" "p = int q"
    by (auto simp: calculate_parity_bits_def bindE_def split: sum.splits)
  from calculate_parity_bits_loop_Inr[OF q(1)] q(2) show ?thesis by auto
qed

lemma calculate_parity_bits_Inl:
  assumes "calculate_parity_bits m = Inl e"
  shows "e = ValueError \<and> (\<forall>q\<le>10. 2 ^ q < m + int q + 1)"
proof -
  from assms have "calculate_parity_bits_loop m 0 = Inl e"
    by (auto simp: calculate_parity_bits_def bindE_def split: sum.splits)
  from calculate_parity_bits_loop_Inl[OF this] show ?thesis by auto
qed

lemma pow2_bound_10: "q \<le> 10 \<Longrightarrow> (2::int) ^ q \<le> int q + 1014"
proof -
  assume "q \<le> 10"
  then have "q = 0 \<or> q = 1 \<or> q = 2 \<or> q = 3 \<or> q = 4 \<or> q = 5 \<or> q = 6 \<or> q = 7
      \<or> q = 8 \<or> q = 9 \<or> q = 10" by arith
  then show ?thesis by auto
qed

lemma calculate_parity_bits_raises_iff:
  "(calculate_parity_bits m = Inl ValueError) = (1014 \<le> m)"
proof
  assume "calculate_parity_bits m = Inl ValueError"
  from calculate_parity_bits_Inl[OF this] have "(2::int) ^ 10 < m + int 10 + 1" by blast
  then show "1014 \<le> m" by simp
next
  assume m: "1014 \<le> m"
  show "calculate_parity_bits m = Inl ValueError"
  proof (cases "calculate_parity_bits m")
    case (Inl e)
    with calculate_parity_bits_Inl[OF Inl] show ?thesis by simp
  next
    case (Inr p)
    from calculate_parity_bits_Inr[OF Inr] obtain q where "q \<le> 10" "m + int q + 1 \<le> 2 ^ q"
      by blast
    with pow2_bound_10[of q] m show ?thesis by linarith
  qed
qed

text \<open>
  Claim C6: whenever \<open>calculate_parity_bits(m)\<close> returns, its result \<open>p\<close> is the least
  non-negative integer with \<open>2^p \<ge> m + p + 1\<close>; in particular
  \<open>calculate_parity_bits(4) == 3\<close>.
\<close>

theorem calculate_parity_bits_minimal:
  "calculate_parity_bits 4 = Inr 3
   \<and> (calculate_parity_bits m = Inr p \<longrightarrow>
        0 \<le> p \<and> m + p + 1 \<le> 2 ^ nat p
        \<and> (\<forall>q. 0 \<le> q \<and> q < p \<longrightarrow> 2 ^ nat q < m + q + 1))"
proof (intro conjI impI)
  show "calculate_parity_bits 4 = Inr 3"
    by (simp add: calculate_parity_bits_def calculate_parity_bits_loop.simps bindE_def)
next
  assume "calculate_parity_bits m = Inr p"
  from calculate_parity_bits_Inr [OF this] obtain k where k: "p = int k"
    "m + int k + 1 \<le> 2 ^ k" "\<forall>q'<k. 2 ^ q' < m + int q' + 1"
    by blast
  show "0 \<le> p" using k(1) by simp
  show "m + p + 1 \<le> 2 ^ nat p" using k(1,2) by simp
  show "\<forall>q. 0 \<le> q \<and> q < p \<longrightarrow> 2 ^ nat q < m + q + 1"
  proof (intro allI impI)
    fix q :: int
    assume q: "0 \<le> q \<and> q < p"
    then have "nat q < k" using k(1) by linarith
    with k(3) have "2 ^ nat q < m + int (nat q) + 1" by blast
    then show "2 ^ nat q < m + q + 1" using q by simp
  qed
qed

theorem calculate_parity_bits_minimal_witness:
  "calculate_parity_bits 4 = Inr 3 \<and> (0::int) \<le> 3 \<and> (4::int) + 3 + 1 \<le> 2 ^ nat 3
   \<and> (2::int) ^ nat 2 < 4 + 2 + 1"
proof -
  have e: "calculate_parity_bits 4 = Inr 3"
    by (simp add: calculate_parity_bits_def calculate_parity_bits_loop.simps bindE_def)
  from calculate_parity_bits_minimal [of 4 3] e
  have "(0::int) \<le> 3 \<and> (4::int) + 3 + 1 \<le> 2 ^ nat 3
        \<and> (\<forall>q. 0 \<le> q \<and> q < (3::int) \<longrightarrow> 2 ^ nat q < (4::int) + q + 1)"
    by blast
  then have "(0::int) \<le> 3 \<and> (4::int) + 3 + 1 \<le> 2 ^ nat 3 \<and> (2::int) ^ nat 2 < 4 + 2 + 1"
    by auto
  with e show ?thesis by blast
qed

text \<open>
  Claim C7: \<open>calculate_parity_bits(m)\<close> raises \<open>ValueError\<close> exactly when no \<open>p \<le> 10\<close>
  satisfies \<open>2^p \<ge> m + p + 1\<close>; that is, it raises for every \<open>m \<ge> 1014\<close> and returns
  normally for every \<open>m \<le> 1013\<close>.  It raises nothing else.
\<close>

theorem calculate_parity_bits_raises:
  "(calculate_parity_bits m = Inl ValueError) = (\<not> (\<exists>p\<le>10. m + int p + 1 \<le> 2 ^ p))
   \<and> (1014 \<le> m \<longrightarrow> calculate_parity_bits m = Inl ValueError)
   \<and> (m \<le> 1013 \<longrightarrow> (\<exists>p. calculate_parity_bits m = Inr p))
   \<and> (\<forall>e. calculate_parity_bits m = Inl e \<longrightarrow> e = ValueError)"
proof (intro conjI impI allI)
  have "(\<exists>p\<le>10. m + int p + 1 \<le> 2 ^ p) = (m \<le> 1013)"
  proof
    assume "\<exists>p\<le>10. m + int p + 1 \<le> 2 ^ p"
    then obtain p where "p \<le> 10" "m + int p + 1 \<le> 2 ^ p" by blast
    with pow2_bound_10 [of p] show "m \<le> 1013" by linarith
  next
    assume "m \<le> 1013"
    then have "m + int 10 + 1 \<le> 2 ^ 10" by simp
    then show "\<exists>p\<le>10. m + int p + 1 \<le> 2 ^ p" by blast
  qed
  then show "(calculate_parity_bits m = Inl ValueError)
             = (\<not> (\<exists>p\<le>10. m + int p + 1 \<le> 2 ^ p))"
    by (simp add: calculate_parity_bits_raises_iff) linarith
next
  assume "1014 \<le> m"
  then show "calculate_parity_bits m = Inl ValueError"
    by (simp add: calculate_parity_bits_raises_iff)
next
  assume m: "m \<le> 1013"
  show "\<exists>p. calculate_parity_bits m = Inr p"
  proof (cases "calculate_parity_bits m")
    case (Inl e)
    with calculate_parity_bits_Inl [OF Inl] calculate_parity_bits_raises_iff [of m] m
    show ?thesis by simp
  next
    case (Inr p)
    then show ?thesis by blast
  qed
next
  fix e
  assume "calculate_parity_bits m = Inl e"
  from calculate_parity_bits_Inl [OF this] show "e = ValueError" by blast
qed

theorem calculate_parity_bits_raises_witness:
  "calculate_parity_bits 1014 = Inl ValueError \<and> (\<exists>p. calculate_parity_bits 1013 = Inr p)"
proof -
  have a: "(1014::int) \<le> 1014" and b: "(1013::int) \<le> 1013" by simp_all
  from calculate_parity_bits_raises [of 1014] a
  have "calculate_parity_bits 1014 = Inl ValueError" by blast
  moreover from calculate_parity_bits_raises [of 1013] b
  have "\<exists>p. calculate_parity_bits 1013 = Inr p" by blast
  ultimately show ?thesis by blast
qed

section \<open>Hamming code: the parity sums\<close>

subsection \<open>Python operations on bit strings\<close>

lemma py_int_bit: "c = CHR ''0'' \<or> c = CHR ''1'' \<Longrightarrow> py_int [c] = Inr (of_bool (c = CHR ''1''))"
  by (auto simp: py_int_def isdecimal_def digit_value_def)

lemma str_of_bool: "str (of_bool b) = [bit_char b]"
  by (simp add: str_def str_nat.simps digit_char_def bit_char_def)

lemma str_one_minus_of_bool: "str (1 - of_bool b) = [bit_char (\<not> b)]"
  by (simp add: str_def str_nat.simps digit_char_def bit_char_def)

lemma py_index_from_end:
  "1 \<le> j \<Longrightarrow> j \<le> length s \<Longrightarrow> py_index s (- int j) = Inr (s ! (length s - j))"
  by (auto simp: py_index_def nat_diff_distrib' of_nat_diff)

lemma and_pow2_iff_bit: "(j AND 2 ^ i = 2 ^ i) = bit (j::nat) i"
proof
  assume "j AND 2 ^ i = 2 ^ i"
  then have "j AND 2 ^ i \<noteq> 0" by simp
  then show "bit j i" by (simp add: and_exp_eq_0_iff_not_bit)
next
  assume "bit j i"
  then show "j AND 2 ^ i = 2 ^ i"
    by (intro bit_eqI) (auto simp: bit_and_iff bit_exp_iff)
qed

lemma xor_of_bool: "(of_bool a :: int) XOR of_bool b = of_bool (a \<noteq> b)"
  by (cases a; cases b) simp_all

lemma bit_string_nth: "bit_string s \<Longrightarrow> k < length s \<Longrightarrow> s ! k = CHR ''0'' \<or> s ! k = CHR ''1''"
proof -
  assume "bit_string s" "k < length s"
  then have "s ! k \<in> {CHR ''0'', CHR ''1''}"
    unfolding bit_string_def using nth_mem by blast
  then show ?thesis by simp
qed

subsection \<open>The inner loop computes the parity of a group\<close>

lemma parity_loop:
  assumes "bit_string code" "\<forall>j\<in>set js. 1 \<le> j \<and> j \<le> length code"
  shows "for_loop (parity_step code i) js (of_bool a)
         = Inr (of_bool (a \<noteq> odd (length (filter (\<lambda>j. bit j i \<and> bitv code j) js))))"
  using assms(2)
proof (induction js arbitrary: a)
  case Nil
  then show ?case by simp
next
  case (Cons j js)
  then have j: "1 \<le> j" "j \<le> length code" and js: "\<forall>j\<in>set js. 1 \<le> j \<and> j \<le> length code"
    by auto
  have c: "code ! (length code - j) = CHR ''0'' \<or> code ! (length code - j) = CHR ''1''"
    using bit_string_nth[OF assms(1), of "length code - j"] j by simp
  have step: "parity_step code i j (of_bool a)
              = Inr (of_bool (if bit j i then a \<noteq> bitv code j else a))"
    using py_int_bit[OF c] j
    by (simp add: parity_step_def and_pow2_iff_bit py_index_from_end bindE_def xor_of_bool bitv_def)
  show ?case
    using Cons.IH[OF js, of "if bit j i then a \<noteq> bitv code j else a"]
    by (auto simp: step)
qed

lemma filter_upt_card:
  "length (filter P [Suc 0..<Suc n]) = card {j. Suc 0 \<le> j \<and> j \<le> n \<and> P j}"
proof -
  have "set (filter P [Suc 0..<Suc n]) = {j. Suc 0 \<le> j \<and> j \<le> n \<and> P j}" by auto
  moreover have "distinct (filter P [Suc 0..<Suc n])" by simp
  ultimately show ?thesis using distinct_card by metis
qed

lemma parity_full:
  assumes "bit_string code"
  shows "for_loop (parity_step code i) [1..<length code + 1] 0 = Inr (of_bool (par code i))"
proof -
  have "for_loop (parity_step code i) [1..<length code + 1] (of_bool False)
        = Inr (of_bool (False \<noteq> odd (length (filter (\<lambda>j. bit j i \<and> bitv code j) [1..<length code + 1]))))"
    by (rule parity_loop[OF assms]) auto
  then show ?thesis
    by (simp add: filter_upt_card par_def ones_def del: upt_Suc)
qed

subsection \<open>Changing one bit\<close>

lemma finite_ones: "finite (ones code i)"
  by (simp add: ones_def)

lemma bitv_update:
  assumes "1 \<le> q" "q \<le> length code" "1 \<le> j" "j \<le> length code"
  shows "bitv (code[length code - q := x]) j = (if j = q then x = CHR ''1'' else bitv code j)"
  using assms by (auto simp: bitv_def nth_list_update)

lemma ones_update:
  assumes "1 \<le> q" "q \<le> length code"
  shows "ones (code[length code - q := x]) i
         = (if bit q i \<and> x = CHR ''1'' then insert q (ones code i) else ones code i - {q})"
proof -
  have "(j \<in> ones (code[length code - q := x]) i)
        = (j \<in> (if bit q i \<and> x = CHR ''1'' then insert q (ones code i) else ones code i - {q}))"
    for j
  proof (cases "1 \<le> j \<and> j \<le> length code")
    case True
    then show ?thesis using assms bitv_update[OF assms, of j x]
      by (cases "j = q") (simp_all add: ones_def)
  next
    case False
    then show ?thesis using assms by (auto simp: ones_def)
  qed
  then show ?thesis by blast
qed

lemma par_update:
  assumes "1 \<le> q" "q \<le> length code"
  shows "par (code[length code - q := x]) i
         = (if bit q i then par code i \<noteq> (bitv code q \<noteq> (x = CHR ''1'')) else par code i)"
proof -
  let ?S = "ones code i"
  let ?S' = "ones (code[length code - q := x]) i"
  have fin: "finite ?S" by (rule finite_ones)
  have mem: "(q \<in> ?S) = (bit q i \<and> bitv code q)" using assms by (simp add: ones_def)
  have upd: "?S' = (if bit q i \<and> x = CHR ''1'' then insert q ?S else ?S - {q})"
    by (rule ones_update[OF assms])
  consider (a) "\<not> bit q i" | (b) "bit q i" "x = CHR ''1''" "bitv code q"
    | (c) "bit q i" "x = CHR ''1''" "\<not> bitv code q"
    | (d) "bit q i" "x \<noteq> CHR ''1''" "bitv code q"
    | (e) "bit q i" "x \<noteq> CHR ''1''" "\<not> bitv code q"
    by blast
  then show ?thesis
  proof cases
    case a
    then have "q \<notin> ?S" using mem by blast
    then have "?S - {q} = ?S" by blast
    with a upd have "?S' = ?S" by presburger
    then have "par (code[length code - q := x]) i = par code i" unfolding par_def by presburger
    with a show ?thesis by presburger
  next
    case b
    then have "q \<in> ?S" using mem by blast
    then have "insert q ?S = ?S" by blast
    with b upd have "?S' = ?S" by presburger
    then have "par (code[length code - q := x]) i = par code i" unfolding par_def by presburger
    with b show ?thesis by presburger
  next
    case c
    then have "q \<notin> ?S" using mem by blast
    then have "card (insert q ?S) = Suc (card ?S)" using fin by (rule_tac card_insert_disjoint)
    moreover from c upd have "?S' = insert q ?S" by presburger
    ultimately have "card ?S' = Suc (card ?S)" by presburger
    then have "par (code[length code - q := x]) i = (\<not> par code i)" unfolding par_def by simp
    with c show ?thesis by presburger
  next
    case d
    then have "q \<in> ?S" using mem by blast
    then have "card ?S = Suc (card (?S - {q}))" using fin by (metis card.remove)
    moreover from d upd have "?S' = ?S - {q}" by presburger
    ultimately have "card ?S = Suc (card ?S')" by presburger
    then have "par (code[length code - q := x]) i = (\<not> par code i)" unfolding par_def by simp
    with d show ?thesis by presburger
  next
    case e
    then have "q \<notin> ?S" using mem by blast
    then have "?S - {q} = ?S" by blast
    with e upd have "?S' = ?S" by presburger
    then have "par (code[length code - q := x]) i = par code i" unfolding par_def by presburger
    with e show ?thesis by presburger
  qed
qed

subsection \<open>One step of each outer loop\<close>

lemma slice_update:
  assumes "k < length s"
  shows "py_slice_to s (int k) @ [x] @ py_slice_from s (int k + 1) = s[k := x]"
proof -
  have "nat (int k + 1) = Suc k" by simp
  then show ?thesis using assms
    by (simp add: py_slice_to_def py_slice_from_def upd_conv_take_nth_drop)
qed

lemma bit_char_eq_1: "(bit_char b = CHR ''1'') = b"
  by (simp add: bit_char_def)

lemma bit_string_update: "bit_string s \<Longrightarrow> bit_string (s[k := bit_char b])"
  using set_update_subset_insert[of s k "bit_char b"]
  by (auto simp: bit_string_def bit_char_def)

lemma parity_values_step_bits:
  assumes "bit_string code" "2 ^ i \<le> length code"
  shows "parity_values_step (length code) i code
         = Inr (code[length code - 2 ^ i := bit_char (par code i)])"
proof -
  have k: "length code - 2 ^ i < length code" using assms(2)
    by (metis diff_less less_le_trans zero_less_numeral zero_less_power)
  have e: "int (length code) - 2 ^ i = int (length code - 2 ^ i)"
    using assms(2) by (simp add: of_nat_diff)
  have "parity_values_step (length code) i code
        = Inr (py_slice_to code (int (length code - 2 ^ i)) @ str (of_bool (par code i))
               @ py_slice_from code (int (length code - 2 ^ i) + 1))"
    by (simp only: parity_values_step_def parity_full[OF assms(1)] bindE_def sum.case e)
  also have "\<dots> = Inr (code[length code - 2 ^ i := bit_char (par code i)])"
    by (simp only: str_of_bool slice_update[OF k])
  finally show ?thesis .
qed

lemma error_pos_step_bits:
  assumes "bit_string code"
  shows "error_pos_step code (length code) i e = Inr (e + of_bool (par code i) * 2 ^ i)"
  unfolding error_pos_step_def parity_full[OF assms] bindE_def by simp

lemma error_position_loop:
  assumes "bit_string code"
  shows "for_loop (error_pos_step code (length code)) [0..<t] 0
         = Inr (\<Sum>i<t. of_bool (par code i) * 2 ^ i)"
proof (induction t)
  case 0
  then show ?case by simp
next
  case (Suc t)
  let ?f = "error_pos_step code (length code)"
  have "for_loop ?f [0..<Suc t] 0 = bindE (for_loop ?f [0..<t] 0) (for_loop ?f [t])"
    by (simp only: upt_Suc_append[OF le0] for_loop_append)
  also have "\<dots> = for_loop ?f [t] (\<Sum>i<t. of_bool (par code i) * 2 ^ i)"
    by (simp only: Suc bindE_def sum.case)
  also have "\<dots> = Inr ((\<Sum>i<t. of_bool (par code i) * 2 ^ i) + of_bool (par code t) * 2 ^ t)"
    by (simp only: for_loop.simps error_pos_step_bits[OF assms] sum.case)
  also have "\<dots> = Inr (\<Sum>i<Suc t. of_bool (par code i) * 2 ^ i)"
    by (simp only: sum.lessThan_Suc)
  finally show ?case .
qed

lemma error_position_bits:
  assumes "bit_string code"
  shows "error_position code p = Inr (syndrome code (nat p))"
  by (simp add: error_position_def Let_def error_position_loop[OF assms] syndrome_def)

lemma syndrome_nonneg: "0 \<le> syndrome code p"
  by (simp add: syndrome_def sum_nonneg)

lemma syndrome_zero:
  assumes "\<forall>i<p. \<not> par code i"
  shows "syndrome code p = 0"
  using assms by (simp add: syndrome_def)

lemma bits_sum: 
  assumes "q < 2 ^ p"
  shows "(\<Sum>i<p. of_bool (bit q i) * 2 ^ i) = int q"
proof -
  have "take_bit p (int q) = (\<Sum>k = 0..<p. push_bit k (of_bool (bit (int q) k)))"
    by (rule take_bit_sum)
  also have "\<dots> = (\<Sum>i<p. of_bool (bit q i) * 2 ^ i)"
    by (simp add: push_bit_eq_mult bit_of_nat_iff_bit atLeast0LessThan)
  finally have "(\<Sum>i<p. of_bool (bit q i) * 2 ^ i) = take_bit p (int q)" by simp
  also have "\<dots> = int (take_bit p q)" by (simp add: take_bit_of_nat)
  also have "\<dots> = int q" using assms by (simp add: take_bit_nat_eq_self)
  finally show ?thesis .
qed

lemma syndrome_bits:
  assumes "\<forall>i<p. par code i = bit q i" "q < 2 ^ p"
  shows "syndrome code p = int q"
proof -
  have "syndrome code p = (\<Sum>i<p. of_bool (bit q i) * 2 ^ i)"
    unfolding syndrome_def using assms(1) by (intro sum.cong) auto
  then show ?thesis using bits_sum[OF assms(2)] by simp
qed

subsection \<open>Flipping and correcting one bit\<close>

lemma py_index_nonneg: "k < length s \<Longrightarrow> py_index s (int k) = Inr (s ! k)"
  by (simp add: py_index_def)

lemma flip_expr:
  assumes "bit_string c" "k < length c"
  shows "bindE (py_index c (int k)) (\<lambda>x. bindE (py_int [x]) (\<lambda>b.
           Inr (py_slice_to c (int k) @ str (1 - b) @ py_slice_from c (int k + 1))))
         = Inr (c[k := bit_char (c ! k \<noteq> CHR ''1'')])"
proof -
  have x: "py_int [c ! k] = Inr (of_bool (c ! k = CHR ''1''))"
    using bit_string_nth[OF assms] by (rule py_int_bit)
  show ?thesis
    by (simp only: py_index_nonneg[OF assms(2)] bindE_def sum.case x str_one_minus_of_bool
        slice_update[OF assms(2)])
qed

lemma flip_at_bits:
  assumes "bit_string c" "k < length c"
  shows "flip_at c (int k) = Inr (c[k := bit_char (c ! k \<noteq> CHR ''1'')])"
  unfolding flip_at_def by (rule flip_expr[OF assms])

lemma detect_no_error:
  assumes "bit_string code" "syndrome code (nat p) = 0"
  shows "detect_correct_error code p = Inr code"
  by (simp add: detect_correct_error_def error_position_bits[OF assms(1)] assms(2) bindE_def)

lemma detect_flip:
  assumes "bit_string code" "syndrome code (nat p) = int q" "1 \<le> q" "q \<le> length code"
  shows "detect_correct_error code p
         = Inr (code[length code - q := bit_char (code ! (length code - q) \<noteq> CHR ''1'')])"
proof -
  have k: "length code - q < length code" using assms(3,4) by simp
  have e: "int (length code) - int q = int (length code - q)"
    using assms(4) by (simp add: of_nat_diff)
  have nz: "int q \<noteq> 0" using assms(3) by simp
  have "detect_correct_error code p =
        bindE (py_index code (int (length code - q))) (\<lambda>x. bindE (py_int [x]) (\<lambda>b.
           Inr (py_slice_to code (int (length code - q)) @ str (1 - b)
                @ py_slice_from code (int (length code - q) + 1))))"
    by (simp only: detect_correct_error_def Let_def error_position_bits[OF assms(1)] assms(2)
        bindE_def sum.case nz not_False_eq_True if_True e)
  then show ?thesis by (simp only: flip_expr[OF assms(1) k])
qed

lemma detect_correct_error_bits:
  assumes "bit_string code" "error_position code p = Inr e" "e \<le> int (length code)"
  shows "\<exists>r. detect_correct_error code p = Inr r \<and> length r = length code \<and> bit_string r
          \<and> (\<forall>k<length code. (r ! k \<noteq> code ! k) = (e \<noteq> 0 \<and> int k = int (length code) - e))"
proof -
  have e: "e = syndrome code (nat p)"
    using assms(2) by (simp add: error_position_bits[OF assms(1)])
  show ?thesis
  proof (cases "e = 0")
    case True
    then show ?thesis using detect_no_error[OF assms(1), of p] e assms(1) by simp
  next
    case False
    define q where "q = nat e"
    have q: "syndrome code (nat p) = int q" "1 \<le> q" "q \<le> length code"
      using False e syndrome_nonneg[of code "nat p"] assms(3) by (auto simp: q_def)
    let ?K = "length code - q"
    let ?r = "code[?K := bit_char (code ! ?K \<noteq> CHR ''1'')]"
    have K: "?K < length code" using q by simp
    have d: "detect_correct_error code p = Inr ?r" by (rule detect_flip[OF assms(1) q])
    have ne: "bit_char (code ! ?K \<noteq> CHR ''1'') \<noteq> code ! ?K"
      using bit_string_nth[OF assms(1) K] by (auto simp: bit_char_def)
    have "(?r ! k \<noteq> code ! k) = (e \<noteq> 0 \<and> int k = int (length code) - e)"
      if "k < length code" for k
    proof (cases "k = ?K")
      case True
      have "int ?K = int (length code) - e" using q e by (simp add: of_nat_diff)
      then show ?thesis using True ne K False by simp
    next
      case ne': False
      have "int ?K = int (length code) - e" using q e by (simp add: of_nat_diff)
      then have "int k \<noteq> int (length code) - e" using ne' by linarith
      then show ?thesis using ne' by simp
    qed
    moreover have "length ?r = length code" by simp
    moreover have "bit_string ?r" by (rule bit_string_update[OF assms(1)])
    ultimately show ?thesis using d by blast
  qed
qed

subsection \<open>The code word has even parity in every group\<close>

lemma bit_pow2_nat: "bit ((2::nat) ^ m) i = (i = m)"
  by (auto simp: bit_exp_iff)

lemma calculate_parity_values_inv:
  assumes "bit_string w" "\<forall>i<p. 2 ^ i \<le> length w" "\<forall>i<p. \<not> bitv w (2 ^ i)" "t \<le> p"
  shows "\<exists>c. for_loop (parity_values_step (length w)) [0..<t] w = Inr c
           \<and> length c = length w \<and> bit_string c
           \<and> (\<forall>i<t. \<not> par c i)
           \<and> (\<forall>i. t \<le> i \<and> i < p \<longrightarrow> \<not> bitv c (2 ^ i))
           \<and> (\<forall>k<length w. (\<forall>i<p. k \<noteq> length w - 2 ^ i) \<longrightarrow> c ! k = w ! k)"
  using assms(4)
proof (induction t)
  case 0
  then show ?case using assms(1,3) by simp
next
  case (Suc t)
  then have tp: "t < p" by simp
  from Suc obtain c where c: "for_loop (parity_values_step (length w)) [0..<t] w = Inr c"
    "length c = length w" "bit_string c" "\<forall>i<t. \<not> par c i"
    "\<forall>i. t \<le> i \<and> i < p \<longrightarrow> \<not> bitv c (2 ^ i)"
    "\<forall>k<length w. (\<forall>i<p. k \<noteq> length w - 2 ^ i) \<longrightarrow> c ! k = w ! k"
    by auto
  define c' where "c' = c[length c - 2 ^ t := bit_char (par c t)]"
  have le: "2 ^ t \<le> length c" using assms(2) tp c(2) by simp
  have one: "1 \<le> (2::nat) ^ t" by simp
  have step: "parity_values_step (length w) t c = Inr c'"
    using parity_values_step_bits[OF c(3) le] by (simp only: c(2) c'_def)
  have "for_loop (parity_values_step (length w)) [0..<Suc t] w
        = bindE (for_loop (parity_values_step (length w)) [0..<t] w)
                (for_loop (parity_values_step (length w)) [t])"
    by (simp only: upt_Suc_append[OF le0] for_loop_append)
  also have "\<dots> = Inr c'"
    by (simp only: c(1) bindE_def sum.case for_loop.simps step)
  finally have run: "for_loop (parity_values_step (length w)) [0..<Suc t] w = Inr c'" .
  have len: "length c' = length w" by (simp add: c'_def c(2))
  have bs: "bit_string c'" unfolding c'_def by (rule bit_string_update[OF c(3)])
  have nb: "\<not> bitv c (2 ^ t)" using c(5) tp by simp
  have par: "\<not> par c' i" if "i < Suc t" for i
  proof (cases "i = t")
    case True
    show ?thesis
      unfolding c'_def par_update[OF one le] True
      using nb by (simp add: bit_pow2_nat bit_char_eq_1)
  next
    case False
    then have "i < t" using that by simp
    then show ?thesis
      unfolding c'_def par_update[OF one le]
      using c(4) False by (simp add: bit_pow2_nat)
  qed
  have rest: "\<not> bitv c' (2 ^ i)" if "Suc t \<le> i \<and> i < p" for i
  proof -
    have i: "1 \<le> (2::nat) ^ i" "2 ^ i \<le> length c" "(2::nat) ^ i \<noteq> 2 ^ t"
      using that assms(2) c(2) by auto
    show ?thesis
      unfolding c'_def bitv_update[OF one le i(1,2)]
      using i(3) c(5) that by simp
  qed
  have agree: "c' ! k = w ! k" if "k < length w" "\<forall>i<p. k \<noteq> length w - 2 ^ i" for k
  proof -
    have "k \<noteq> length c - 2 ^ t" using that(2) tp c(2) by simp
    then have "c' ! k = c ! k" by (simp add: c'_def)
    then show ?thesis using c(6) that by simp
  qed
  show ?case using run len bs par rest agree by blast
qed

lemma calculate_parity_values_bits:
  assumes "bit_string w" "\<forall>i<p. 2 ^ i \<le> length w" "\<forall>i<p. \<not> bitv w (2 ^ i)"
  shows "\<exists>c. calculate_parity_values w (int p) = Inr c
           \<and> length c = length w \<and> bit_string c
           \<and> (\<forall>i<p. \<not> par c i)
           \<and> (\<forall>k<length w. (\<forall>i<p. k \<noteq> length w - 2 ^ i) \<longrightarrow> c ! k = w ! k)"
  using calculate_parity_values_inv[OF assms le_refl]
  by (simp add: calculate_parity_values_def Let_def) blast

subsection \<open>Positioning the data bits\<close>

declare upt_Suc [simp del]

lemma is_power_of_two_iff: "is_power_of_two k = (\<exists>e. k = 2 ^ e)"
proof
  assume "is_power_of_two k"
  then show "\<exists>e. k = 2 ^ e" by (auto simp: is_power_of_two_def)
next
  assume "\<exists>e. k = 2 ^ e"
  then obtain e where e: "k = 2 ^ e" by blast
  have "e < 2 ^ e" by (rule less_exp)
  then show "is_power_of_two k" using e by (auto simp: is_power_of_two_def)
qed

lemma pow2_add_le: "(2::nat) ^ a + d \<le> 2 ^ (a + d)"
proof (induction d)
  case 0
  then show ?case by simp
next
  case (Suc d)
  have "(1::nat) \<le> 2 ^ (a + d)" by simp
  moreover have "(2::nat) ^ (a + Suc d) = 2 ^ (a + d) + 2 ^ (a + d)" by simp
  ultimately show ?case using Suc by linarith
qed

lemma pow2_pred_less: "(2::nat) ^ e \<le> t \<Longrightarrow> 2 ^ e - 1 < t"
proof -
  assume a: "(2::nat) ^ e \<le> t"
  have "(1::nat) \<le> 2 ^ e" by simp
  with a show ?thesis by linarith
qed

lemma position_inv_init: "position_inv data 0 (0, 1, [])"
  by (simp add: position_inv_def)

lemma position_step_inv:
  assumes inv: "position_inv data t (j, k, result)"
    and p: "\<forall>i<p. 2 ^ i \<le> length data + p" "length data + p < 2 ^ p"
    and t: "t < length data + p"
  shows "\<exists>s. position_step data (Suc t) (j, k, result) = Inr s \<and> position_inv data (Suc t) s"
proof -
  from inv have len: "length result = t" and tj: "t < 2 ^ j" and ej: "\<forall>e<j. 2 ^ e \<le> t"
    and kj: "k + j = t + 1" and k1: "1 \<le> k"
    and dat: "map (\<lambda>i. result ! (i - 1)) (filter (\<lambda>i. \<not> is_power_of_two i) [1..<Suc t])
              = take (k - 1) (rev data)"
    and zer: "\<forall>e. 2 ^ e \<le> t \<longrightarrow> result ! (2 ^ e - 1) = CHR ''0''"
    and sub: "set result \<subseteq> insert CHR ''0'' (set data)"
    by (auto simp: position_inv_def)
  have old: "map (\<lambda>i. (result @ [x]) ! (i - 1)) (filter (\<lambda>i. \<not> is_power_of_two i) [1..<Suc t])
             = take (k - 1) (rev data)" for x
  proof -
    have "map (\<lambda>i. (result @ [x]) ! (i - 1)) (filter (\<lambda>i. \<not> is_power_of_two i) [1..<Suc t])
          = map (\<lambda>i. result ! (i - 1)) (filter (\<lambda>i. \<not> is_power_of_two i) [1..<Suc t])"
      by (rule map_cong) (auto simp: nth_append len)
    also have "\<dots> = take (k - 1) (rev data)" by (rule dat)
    finally show ?thesis .
  qed
  have upt: "[Suc 0..<Suc (Suc t)] = [Suc 0..<Suc t] @ [Suc t]" by (simp add: upt_Suc)
  show ?thesis
  proof (cases "Suc t = 2 ^ j")
    case True
    then have pw: "is_power_of_two (Suc t)" by (auto simp: is_power_of_two_iff)
    let ?r = "result @ ''0''"
    have st: "position_step data (Suc t) (j, k, result) = Inr (j + 1, k, ?r)"
      using True by (simp add: position_step_def)
    have z: "?r ! (2 ^ e - 1) = CHR ''0''" if "2 ^ e \<le> Suc t" for e
    proof (cases "(2::nat) ^ e \<le> t")
      case True
      then have "2 ^ e - 1 < length result" unfolding len
        by (rule pow2_pred_less)
      then show ?thesis using zer True by (simp add: nth_append)
    next
      case False
      then have "(2::nat) ^ e = Suc t" using that by simp
      then show ?thesis using len by (simp add: nth_append)
    qed
    have f: "filter (\<lambda>i. \<not> is_power_of_two i) [1..<Suc (Suc t)]
             = filter (\<lambda>i. \<not> is_power_of_two i) [1..<Suc t]"
      using pw by (simp add: upt)
    have i1: "length ?r = Suc t" using len by simp
    have i2: "Suc t < 2 ^ (j + 1)" using True by simp
    have i3: "\<forall>e<j + 1. 2 ^ e \<le> Suc t"
    proof (intro allI impI)
      fix e assume "e < j + 1"
      then have "e < j \<or> e = j" by arith
      then show "2 ^ e \<le> Suc t" using ej True by auto
    qed
    have i4: "k + (j + 1) = Suc t + 1" using kj by simp
    have i6: "map (\<lambda>i. ?r ! (i - 1)) (filter (\<lambda>i. \<not> is_power_of_two i) [1..<Suc (Suc t)])
              = take (k - 1) (rev data)"
      unfolding f by (rule old)
    have i7: "\<forall>e. 2 ^ e \<le> Suc t \<longrightarrow> ?r ! (2 ^ e - 1) = CHR ''0''" using z by blast
    have i8: "set ?r \<subseteq> insert CHR ''0'' (set data)" using sub by auto
    have "position_inv data (Suc t) (j + 1, k, ?r)"
      unfolding position_inv_def prod.case
      using i1 i2 i3 i4 k1 i6 i7 i8 by (intro conjI)
    then show ?thesis using st by blast
  next
    case False
    have npw: "\<not> is_power_of_two (Suc t)"
    proof
      assume "is_power_of_two (Suc t)"
      then obtain e where e: "Suc t = 2 ^ e" by (auto simp: is_power_of_two_iff)
      have "\<not> e < j" using ej e by auto
      moreover have "e \<noteq> j" using e False by auto
      moreover have "\<not> j < e"
      proof
        assume "j < e"
        then have "Suc j \<le> e" by simp
        then have "(2::nat) ^ Suc j \<le> 2 ^ e" by (rule power_increasing) simp
        then have "2 * 2 ^ j \<le> Suc t" using e by simp
        then show False using tj by simp
      qed
      ultimately show False by arith
    qed
    have tj': "Suc t < 2 ^ j" using tj False by simp
    have jp: "j \<le> p"
    proof (rule ccontr)
      assume "\<not> j \<le> p"
      then have "p < j" by simp
      then have "2 ^ p \<le> t" using ej by simp
      then show False using p(2) t by simp
    qed
    have km: "k \<le> length data"
    proof (cases "j = p")
      case True
      then show ?thesis using kj t by simp
    next
      case False
      then have jl: "j < p" using jp by simp
      then obtain d where d: "p = Suc (j + d)" using less_imp_Suc_add by blast
      have "(2::nat) ^ j + d \<le> 2 ^ (j + d)" by (rule pow2_add_le)
      moreover have "(2::nat) ^ (j + d) \<le> length data + p" using p(1) d by simp
      ultimately show ?thesis using tj' kj d by simp
    qed
    let ?c = "data ! (length data - k)"
    let ?r = "result @ [?c]"
    have idx: "py_index data (- int k) = Inr ?c" using k1 km by (rule py_index_from_end)
    have st: "position_step data (Suc t) (j, k, result) = Inr (j, k + 1, ?r)"
      using False by (simp add: position_step_def idx bindE_def)
    have rv: "rev data ! (k - 1) = ?c" using k1 km by (simp add: rev_nth)
    have tk: "take k (rev data) = take (k - 1) (rev data) @ [?c]"
      using take_Suc_conv_app_nth[of "k - 1" "rev data"] k1 km rv by simp
    have cm: "?c \<in> set data" using k1 km by simp
    have z: "?r ! (2 ^ e - 1) = CHR ''0''" if "2 ^ e \<le> Suc t" for e
    proof -
      have "(2::nat) ^ e \<noteq> Suc t" using npw unfolding is_power_of_two_iff by metis
      then have le: "(2::nat) ^ e \<le> t" using that by simp
      then have "2 ^ e - 1 < length result" unfolding len
        by (rule pow2_pred_less)
      then show ?thesis using zer le by (simp add: nth_append)
    qed
    have f: "filter (\<lambda>i. \<not> is_power_of_two i) [1..<Suc (Suc t)]
             = filter (\<lambda>i. \<not> is_power_of_two i) [1..<Suc t] @ [Suc t]"
      using npw by (simp add: upt)
    have lastc: "?r ! (Suc t - 1) = ?c" using len by (simp add: nth_append)
    have i1: "length ?r = Suc t" using len by simp
    have i4: "(k + 1) + j = Suc t + 1" using kj by simp
    have i5: "1 \<le> k + 1" by simp
    have "map (\<lambda>i. ?r ! (i - 1)) (filter (\<lambda>i. \<not> is_power_of_two i) [1..<Suc (Suc t)])
          = take (k - 1) (rev data) @ [?c]"
      unfolding f map_append old by (simp only: list.map lastc)
    then have i6: "map (\<lambda>i. ?r ! (i - 1))
                     (filter (\<lambda>i. \<not> is_power_of_two i) [1..<Suc (Suc t)])
                   = take (k + 1 - 1) (rev data)"
      using tk by simp
    have i7: "\<forall>e. 2 ^ e \<le> Suc t \<longrightarrow> ?r ! (2 ^ e - 1) = CHR ''0''" using z by blast
    have i8: "set ?r \<subseteq> insert CHR ''0'' (set data)" using sub cm by auto
    have i3: "\<forall>e<j. 2 ^ e \<le> Suc t" using ej by (simp add: le_SucI)
    have "position_inv data (Suc t) (j, k + 1, ?r)"
      unfolding position_inv_def prod.case
      using i1 tj' i3 i4 i5 i6 i7 i8 by (intro conjI)
    then show ?thesis using st by blast
  qed
qed

lemma position_loop:
  assumes p: "\<forall>i<p. 2 ^ i \<le> length data + p" "length data + p < 2 ^ p"
    and t: "t \<le> length data + p"
  shows "\<exists>s. for_loop (position_step data) [1..<Suc t] (0, 1, []) = Inr s
              \<and> position_inv data t s"
  using t
proof (induction t)
  case 0
  then show ?case using position_inv_init[of data] by simp
next
  case (Suc t)
  then obtain s where s: "for_loop (position_step data) [1..<Suc t] (0, 1, []) = Inr s"
    "position_inv data t s" by auto
  obtain j k result where jkr: "s = (j, k, result)" by (cases s)
  have lt: "t < length data + p" using Suc.prems by simp
  from position_step_inv[OF s(2)[unfolded jkr] p lt]
  obtain s' where s': "position_step data (Suc t) s = Inr s'" "position_inv data (Suc t) s'"
    unfolding jkr by blast
  have "[1..<Suc (Suc t)] = [1..<Suc t] @ [Suc t]" by (simp add: upt_Suc)
  then have "for_loop (position_step data) [1..<Suc (Suc t)] (0, 1, [])
             = bindE (for_loop (position_step data) [1..<Suc t] (0, 1, []))
                 (for_loop (position_step data) [Suc t])"
    by (simp only: for_loop_append)
  also have "\<dots> = Inr s'"
    by (simp only: s(1) bindE_def sum.case for_loop.simps s'(1))
  finally show ?case using s'(2) by blast
qed

lemma position_parity_bits_bits:
  assumes bs: "bit_string data"
    and p: "\<forall>i<p. 2 ^ i \<le> length data + p" "length data + p < 2 ^ p"
  shows "\<exists>w. position_parity_bits data (int p) = Inr w
              \<and> length w = length data + p \<and> bit_string w
              \<and> (\<forall>i<p. \<not> bitv w (2 ^ i))
              \<and> map (\<lambda>pos. w ! (length w - pos))
                    (rev (filter (\<lambda>i. \<not> is_power_of_two i) [1..<Suc (length w)])) = data"
proof -
  let ?n = "length data + p"
  from position_loop[OF p le_refl]
  obtain s where s: "for_loop (position_step data) [1..<Suc ?n] (0, 1, []) = Inr s"
    "position_inv data ?n s" by blast
  obtain j k result where jkr: "s = (j, k, result)" by (cases s)
  from s(2) have len: "length result = ?n" and nj: "?n < 2 ^ j" and ej: "\<forall>e<j. 2 ^ e \<le> ?n"
    and kj: "k + j = ?n + 1"
    and dat: "map (\<lambda>i. result ! (i - 1)) (filter (\<lambda>i. \<not> is_power_of_two i) [1..<Suc ?n])
              = take (k - 1) (rev data)"
    and zer: "\<forall>e. 2 ^ e \<le> ?n \<longrightarrow> result ! (2 ^ e - 1) = CHR ''0''"
    and sub: "set result \<subseteq> insert CHR ''0'' (set data)"
    unfolding jkr position_inv_def prod.case by simp_all
  have jp: "j = p"
  proof (rule ccontr)
    assume "j \<noteq> p"
    then consider "j < p" | "p < j" by arith
    then show False
    proof cases
      case 1
      then have "2 ^ j \<le> ?n" using p(1) by blast
      then show False using nj by simp
    next
      case 2
      then have "2 ^ p \<le> ?n" using ej by blast
      then show False using p(2) by simp
    qed
  qed
  have k: "k - 1 = length data" using kj jp by simp
  let ?w = "rev result"
  have nat_eq: "nat (int (length data) + int p + 1) = Suc ?n" by simp
  have run: "position_parity_bits data (int p) = Inr ?w"
    by (simp only: position_parity_bits_def Let_def nat_eq s(1) jkr bindE_def sum.case prod.case)
  have lw: "length ?w = ?n" using len by simp
  have bw: "bit_string ?w" using sub bs by (auto simp: bit_string_def)
  have at: "?w ! (?n - pos) = result ! (pos - 1)" if "1 \<le> pos" "pos \<le> ?n" for pos
  proof -
    have "?n - pos < length result" using that len by simp
    then have "?w ! (?n - pos) = result ! (length result - Suc (?n - pos))" by (rule rev_nth)
    moreover have "length result - Suc (?n - pos) = pos - 1" using that len by simp
    ultimately show ?thesis by simp
  qed
  have par: "\<not> bitv ?w (2 ^ i)" if "i < p" for i
  proof -
    have le: "2 ^ i \<le> ?n" using p(1) that by blast
    have "?w ! (?n - 2 ^ i) = result ! (2 ^ i - 1)" by (rule at[OF _ le]) simp
    then have "?w ! (?n - 2 ^ i) = CHR ''0''" using zer le by simp
    then show ?thesis unfolding bitv_def lw by simp
  qed
  let ?F = "filter (\<lambda>i. \<not> is_power_of_two i) [1..<Suc ?n]"
  have "map (\<lambda>pos. ?w ! (?n - pos)) (rev ?F) = rev (map (\<lambda>pos. ?w ! (?n - pos)) ?F)"
    by (simp only: rev_map)
  also have "map (\<lambda>pos. ?w ! (?n - pos)) ?F = map (\<lambda>i. result ! (i - 1)) ?F"
  proof (rule map_cong[OF refl])
    fix x assume "x \<in> set ?F"
    then have "x \<in> set [1..<Suc ?n]" by (simp only: set_filter mem_Collect_eq)
    then have "1 \<le> x" "x \<le> ?n" by simp_all
    then show "?w ! (?n - x) = result ! (x - 1)" by (rule at)
  qed
  also have "\<dots> = rev data" using dat k by simp
  finally have d: "map (\<lambda>pos. ?w ! (?n - pos)) (rev ?F) = data" by simp
  have "position_parity_bits data (int p) = Inr ?w
              \<and> length ?w = length data + p \<and> bit_string ?w
              \<and> (\<forall>i<p. \<not> bitv ?w (2 ^ i))
              \<and> map (\<lambda>pos. ?w ! (length ?w - pos))
                    (rev (filter (\<lambda>i. \<not> is_power_of_two i) [1..<Suc (length ?w)])) = data"
    unfolding lw using run bw par d by (intro conjI allI impI refl)
  then show ?thesis by (rule exI)
qed

subsection \<open>Removing the parity bits\<close>

lemma fold_collect:
  "fold (\<lambda>i acc. if P i then acc @ [f i] else acc) xs acc = acc @ map f (filter P xs)"
  by (induction xs arbitrary: acc) auto

lemma upt_reindex: "[0..<n] = map (\<lambda>pos. n - pos) (rev [1..<Suc n])"
proof (rule nth_equalityI)
  show "length [0..<n] = length (map (\<lambda>pos. n - pos) (rev [1..<Suc n]))" by simp
next
  fix i assume "i < length [0..<n]"
  then have i: "i < n" by simp
  then have "rev [1..<Suc n] ! i = [1..<Suc n] ! (length [1..<Suc n] - Suc i)"
    by (intro rev_nth) simp
  also have "\<dots> = n - i" using i by simp
  finally have "rev [1..<Suc n] ! i = n - i" .
  then show "[0..<n] ! i = map (\<lambda>pos. n - pos) (rev [1..<Suc n]) ! i"
    using i by simp
qed

lemma remove_parity_bits_positions:
  "remove_parity_bits code (int p)
   = map (\<lambda>pos. code ! (length code - pos))
       (rev (filter (\<lambda>pos. pos \<notin> (\<lambda>i. 2 ^ i) ` {..<p}) [1..<Suc (length code)]))"
proof -
  let ?n = "length code"
  let ?Q = "\<lambda>i. int i \<notin> (\<lambda>x. int ?n - 2 ^ x) ` {0..<p}"
  have "remove_parity_bits code (int p) = map (\<lambda>i. code ! i) (filter ?Q [0..<?n])"
    by (simp add: remove_parity_bits_def Let_def fold_collect image_image)
  also have "filter ?Q [0..<?n]
             = map (\<lambda>pos. ?n - pos) (filter (?Q \<circ> (\<lambda>pos. ?n - pos)) (rev [1..<Suc ?n]))"
    by (subst upt_reindex) (simp only: filter_map)
  also have "filter (?Q \<circ> (\<lambda>pos. ?n - pos)) (rev [1..<Suc ?n])
             = filter (\<lambda>pos. pos \<notin> (\<lambda>i. 2 ^ i) ` {..<p}) (rev [1..<Suc ?n])"
  proof (rule filter_cong[OF refl])
    fix pos assume "pos \<in> set (rev [1..<Suc ?n])"
    then have pos: "1 \<le> pos" "pos \<le> ?n" by simp_all
    have "(int (?n - pos) = int ?n - 2 ^ i) = (pos = 2 ^ i)" for i
    proof -
      have "int (?n - pos) = int ?n - int pos" using pos by (simp add: of_nat_diff)
      moreover have "(int pos = 2 ^ i) = (pos = 2 ^ i)"
        by (metis of_nat_eq_iff of_nat_numeral of_nat_power)
      ultimately show ?thesis by linarith
    qed
    then show "(?Q \<circ> (\<lambda>pos. ?n - pos)) pos = (pos \<notin> (\<lambda>i. 2 ^ i) ` {..<p})"
      by (auto simp: image_iff)
  qed
  finally show ?thesis by (simp add: rev_filter comp_def)
qed

lemma parity_position_iff:
  assumes "n < 2 ^ p" "pos \<le> n"
  shows "(pos \<notin> (\<lambda>i. 2 ^ i) ` {..<p}) = (\<not> is_power_of_two pos)"
proof -
  have "e < p" if "pos = 2 ^ e" for e
  proof (rule ccontr)
    assume "\<not> e < p"
    then have "p \<le> e" by simp
    then have "(2::nat) ^ p \<le> 2 ^ e" by (rule power_increasing) simp
    then show False using assms that by linarith
  qed
  then show ?thesis unfolding is_power_of_two_iff by auto
qed

lemma remove_parity_bits_data:
  assumes "length code < 2 ^ p"
  shows "remove_parity_bits code (int p)
         = map (\<lambda>pos. code ! (length code - pos))
             (rev (filter (\<lambda>i. \<not> is_power_of_two i) [1..<Suc (length code)]))"
proof -
  have "filter (\<lambda>pos. pos \<notin> (\<lambda>i. 2 ^ i) ` {..<p}) [1..<Suc (length code)]
        = filter (\<lambda>i. \<not> is_power_of_two i) [1..<Suc (length code)]"
  proof (rule filter_cong[OF refl])
    fix pos assume "pos \<in> set [1..<Suc (length code)]"
    then have "pos \<le> length code" by simp
    then show "(pos \<notin> (\<lambda>i. 2 ^ i) ` {..<p}) = (\<not> is_power_of_two pos)"
      by (rule parity_position_iff[OF assms])
  qed
  then show ?thesis by (simp only: remove_parity_bits_positions)
qed

lemma data_positions_agree:
  assumes "length c = length w"
    "\<forall>k<length w. (\<forall>i<p. k \<noteq> length w - 2 ^ i) \<longrightarrow> c ! k = w ! k"
    "length w < 2 ^ p" "\<forall>i<p. 2 ^ i \<le> length w"
  shows "map (\<lambda>pos. c ! (length c - pos))
             (rev (filter (\<lambda>i. \<not> is_power_of_two i) [1..<Suc (length c)]))
         = map (\<lambda>pos. w ! (length w - pos))
             (rev (filter (\<lambda>i. \<not> is_power_of_two i) [1..<Suc (length w)]))"
  unfolding assms(1)
proof (rule map_cong[OF refl])
  fix pos assume "pos \<in> set (rev (filter (\<lambda>i. \<not> is_power_of_two i) [1..<Suc (length w)]))"
  then have pos: "1 \<le> pos" "pos \<le> length w" "\<not> is_power_of_two pos" by simp_all
  have "length w - pos \<noteq> length w - 2 ^ i" if "i < p" for i
  proof
    assume e: "length w - pos = length w - 2 ^ i"
    have "(2::nat) ^ i \<le> length w" using assms(4) that by blast
    then have "pos = 2 ^ i" using e pos by linarith
    then show False using pos(3) unfolding is_power_of_two_iff by blast
  qed
  moreover have "length w - pos < length w" using pos by simp
  ultimately show "c ! (length w - pos) = w ! (length w - pos)" using assms(2) by blast
qed

subsection \<open>Exclusive or and parity\<close>

lemma bit_at_of_bool: "bit_at code pos = of_bool (bitv code pos)"
  by (simp add: bit_at_def bitv_def)

lemma fold_xor_bits:
  "fold (\<lambda>x acc. acc XOR x) (map (bit_at code) js) (of_bool a)
   = of_bool (a \<noteq> odd (length (filter (bitv code) js)))"
proof (induction js arbitrary: a)
  case Nil
  then show ?case by simp
next
  case (Cons j js)
  have "fold (\<lambda>x acc. acc XOR x) (map (bit_at code) (j # js)) (of_bool a)
        = fold (\<lambda>x acc. acc XOR x) (map (bit_at code) js) (of_bool (a \<noteq> bitv code j))"
    by (simp only: list.map fold_simps bit_at_of_bool xor_of_bool)
  also have "\<dots> = of_bool ((a \<noteq> bitv code j) \<noteq> odd (length (filter (bitv code) js)))"
    by (rule Cons.IH)
  also have "\<dots> = of_bool (a \<noteq> odd (length (filter (bitv code) (j # js))))"
    by (cases "bitv code j") auto
  finally show ?case .
qed

lemma xor_list_bits:
  "xor_list (map (bit_at code) js) = of_bool (odd (length (filter (bitv code) js)))"
  using fold_xor_bits[of code js False] by (simp add: xor_list_def)

lemma xor_group:
  "xor_list (map (bit_at code) (parity_group code i)) = of_bool (par code i)"
proof -
  have "length (filter (bitv code) (parity_group code i))
        = length (filter (\<lambda>j. bit j i \<and> bitv code j) [Suc 0..<Suc (length code)])"
    by (simp add: parity_group_def conj_commute)
  also have "\<dots> = card (ones code i)"
    by (simp only: filter_upt_card ones_def One_nat_def)
  finally show ?thesis by (simp only: xor_list_bits par_def)
qed

lemma xor_group_others:
  assumes "2 ^ i \<le> length code"
  shows "xor_list (map (bit_at code) (filter (\<lambda>j. j \<noteq> 2 ^ i) (parity_group code i)))
         = of_bool (par code i \<noteq> bitv code (2 ^ i))"
proof -
  let ?S = "ones code i"
  have fin: "finite ?S" by (rule finite_ones)
  have "length (filter (bitv code) (filter (\<lambda>j. j \<noteq> 2 ^ i) (parity_group code i)))
        = length (filter (\<lambda>j. (j \<noteq> 2 ^ i \<and> bit j i) \<and> bitv code j) [Suc 0..<Suc (length code)])"
    by (simp add: parity_group_def conj_commute conj_left_commute)
  also have "\<dots> = card {j. Suc 0 \<le> j \<and> j \<le> length code \<and> (j \<noteq> 2 ^ i \<and> bit j i) \<and> bitv code j}"
    by (simp only: filter_upt_card)
  also have "{j. Suc 0 \<le> j \<and> j \<le> length code \<and> (j \<noteq> 2 ^ i \<and> bit j i) \<and> bitv code j}
             = ?S - {2 ^ i}"
    by (auto simp: ones_def)
  finally have len: "length (filter (bitv code) (filter (\<lambda>j. j \<noteq> 2 ^ i) (parity_group code i)))
                     = card (?S - {2 ^ i})" .
  have mem: "(2 ^ i \<in> ?S) = bitv code (2 ^ i)"
    using assms by (simp add: ones_def bit_pow2_nat)
  have "odd (card (?S - {2 ^ i})) = (par code i \<noteq> bitv code (2 ^ i))"
  proof (cases "bitv code (2 ^ i)")
    case True
    then have "2 ^ i \<in> ?S" using mem by simp
    then have "card ?S = Suc (card (?S - {2 ^ i}))" using fin by (metis card.remove)
    then show ?thesis using True unfolding par_def by simp
  next
    case False
    then have "2 ^ i \<notin> ?S" using mem by simp
    then have "?S - {2 ^ i} = ?S" by blast
    then show ?thesis using False unfolding par_def by presburger
  qed
  then show ?thesis by (simp only: xor_list_bits len)
qed

subsection \<open>Encoding and single-error correction\<close>

lemma parity_bits_params:
  assumes "calculate_parity_bits (int m) = Inr P"
  shows "\<exists>p. P = int p \<and> (\<forall>i<p. 2 ^ i \<le> m + p) \<and> m + p < 2 ^ p"
proof -
  from calculate_parity_bits_Inr[OF assms] obtain q where q: "P = int q"
    "int m + int q + 1 \<le> 2 ^ q" "\<forall>q'<q. 2 ^ q' < int m + int q' + 1"
    by blast
  have a: "m + q < 2 ^ q"
  proof -
    have "int (m + q) < int (2 ^ q)" using q(2) by simp
    then show ?thesis by (simp only: of_nat_less_iff)
  qed
  have b: "2 ^ i \<le> m + q" if "i < q" for i
  proof -
    have "(2::int) ^ i < int m + int i + 1" using q(3) that by blast
    then have "int (2 ^ i) < int (m + i + 1)" by simp
    then have "2 ^ i < m + i + 1" by (simp only: of_nat_less_iff)
    then show ?thesis using that by linarith
  qed
  show ?thesis using q(1) a b by blast
qed

lemma hamming_encode:
  assumes bs: "bit_string d"
    and p: "\<forall>i<p. 2 ^ i \<le> length d + p" "length d + p < 2 ^ p"
  shows "\<exists>w c. position_parity_bits d (int p) = Inr w
           \<and> calculate_parity_values w (int p) = Inr c
           \<and> length c = length d + p \<and> bit_string c
           \<and> (\<forall>i<p. \<not> par c i)
           \<and> map (\<lambda>pos. c ! (length c - pos))
                 (rev (filter (\<lambda>i. \<not> is_power_of_two i) [1..<Suc (length c)])) = d"
proof -
  from position_parity_bits_bits[OF bs p] obtain w where
    w: "position_parity_bits d (int p) = Inr w" "length w = length d + p" "bit_string w"
       "\<forall>i<p. \<not> bitv w (2 ^ i)"
       "map (\<lambda>pos. w ! (length w - pos))
          (rev (filter (\<lambda>i. \<not> is_power_of_two i) [1..<Suc (length w)])) = d"
    by blast
  have pw: "\<forall>i<p. 2 ^ i \<le> length w" "length w < 2 ^ p" using p w(2) by simp_all
  from calculate_parity_values_bits[OF w(3) pw(1) w(4)] obtain c where
    c: "calculate_parity_values w (int p) = Inr c" "length c = length w" "bit_string c"
       "\<forall>i<p. \<not> par c i"
       "\<forall>k<length w. (\<forall>i<p. k \<noteq> length w - 2 ^ i) \<longrightarrow> c ! k = w ! k"
    by blast
  have "map (\<lambda>pos. c ! (length c - pos))
          (rev (filter (\<lambda>i. \<not> is_power_of_two i) [1..<Suc (length c)])) = d"
    using data_positions_agree[OF c(2) c(5) pw(2) pw(1)] w(5) by (rule trans)
  moreover have "length c = length d + p" using c(2) w(2) by simp
  ultimately show ?thesis using w(1) c(1) c(3) c(4) by blast
qed

lemma single_error:
  assumes bs: "bit_string c" and par: "\<forall>i<p. \<not> par c i" and k: "k < length c"
    and n: "length c < 2 ^ p"
  shows "detect_correct_error (c[k := bit_char (c ! k \<noteq> CHR ''1'')]) (int p) = Inr c"
proof -
  define q where "q = length c - k"
  let ?x = "bit_char (c ! k \<noteq> CHR ''1'')"
  let ?r = "c[k := ?x]"
  have q: "1 \<le> q" "q \<le> length c" "k = length c - q" using k by (simp_all add: q_def)
  have bsr: "bit_string ?r" by (rule bit_string_update[OF bs])
  have lr: "length ?r = length c" by simp
  have bq: "bitv c q = (c ! k = CHR ''1'')" by (simp add: bitv_def q(3))
  have pr: "par ?r i = bit q i" if "i < p" for i
  proof -
    have "par ?r i = (if bit q i then par c i \<noteq> (bitv c q \<noteq> (?x = CHR ''1'')) else par c i)"
      unfolding q(3) by (rule par_update[OF q(1,2)])
    moreover have "\<not> par c i" using par that by blast
    moreover have "bitv c q \<noteq> (?x = CHR ''1'')" unfolding bq bit_char_eq_1 by blast
    ultimately show ?thesis by presburger
  qed
  have "q < 2 ^ p" using q(2) n by simp
  then have syn: "syndrome ?r (nat (int p)) = int q"
    using pr by (simp only: nat_int) (rule syndrome_bits, blast)
  have "detect_correct_error ?r (int p)
        = Inr (?r[length ?r - q := bit_char (?r ! (length ?r - q) \<noteq> CHR ''1'')])"
    using bsr syn q(1) q(2)[folded lr] by (rule detect_flip)
  also have "?r[length ?r - q := bit_char (?r ! (length ?r - q) \<noteq> CHR ''1'')]
             = c[k := bit_char (?x \<noteq> CHR ''1'')]"
    unfolding lr q(3)[symmetric] using k by simp
  also have "bit_char (?x \<noteq> CHR ''1'') = c ! k"
    using bit_string_nth[OF bs k] by (auto simp: bit_char_def)
  also have "c[k := c ! k] = c" by simp
  finally show ?thesis .
qed

lemma add_noise_at:
  assumes "k < length c"
  shows "add_noise c k = flip_at c (int k)"
proof -
  have "int k mod (int (length c) - 1 - 0 + 1) = int k" using assms by simp
  moreover have "c \<noteq> []" using assms by auto
  ultimately show ?thesis by (simp add: add_noise_def randint_def bindE_def)
qed

subsection \<open>The claims about the Hamming code\<close>

text \<open>
  Claim C10: for every bit string \<open>code\<close> and parity count \<open>p\<close> whose syndrome
  \<open>error_pos\<close> does not exceed \<open>len(code)\<close>, \<open>detect_correct_error(code, p)\<close> returns a bit
  string of the same length that differs from \<open>code\<close> in at most one place: exactly at
  the syndrome position, counted from 1 at the right (index \<open>len(code) - error_pos\<close>),
  when the syndrome is not zero, and nowhere when it is zero.
\<close>

theorem detect_correct_error_single_position:
  assumes "bit_string code" and "error_position code p = Inr e"
    and "e \<le> int (length code)"
  shows "\<exists>r. detect_correct_error code p = Inr r \<and> length r = length code \<and> bit_string r
          \<and> (\<forall>k<length code. (r ! k \<noteq> code ! k) = (e \<noteq> 0 \<and> int k = int (length code) - e))"
  using assms by (rule detect_correct_error_bits)

theorem detect_correct_error_single_position_witness:
  "error_position ''1110110'' 3 = Inr 5
   \<and> (\<exists>r. detect_correct_error ''1110110'' 3 = Inr r \<and> length r = 7
          \<and> r ! 2 \<noteq> ''1110110'' ! 2 \<and> r ! 0 = ''1110110'' ! 0)"
proof -
  have bs: "bit_string ''1110110''" by (simp add: bit_string_def)
  have e: "error_position ''1110110'' 3 = Inr 5" by code_simp
  have le: "(5::int) \<le> int (length ''1110110'')" by simp
  from detect_correct_error_single_position [OF bs e le] obtain r where
    r: "detect_correct_error ''1110110'' 3 = Inr r" "length r = length ''1110110''"
       "\<forall>k<length ''1110110''. (r ! k \<noteq> ''1110110'' ! k)
           = ((5::int) \<noteq> 0 \<and> int k = int (length ''1110110'') - 5)"
    by blast
  have "r ! 2 \<noteq> ''1110110'' ! 2" using r(3)[rule_format, of 2] by simp
  moreover have "r ! 0 = ''1110110'' ! 0" using r(3)[rule_format, of 0] by simp
  ultimately show ?thesis using e r(1,2) by auto
qed

text \<open>
  Without the bound on the syndrome the result is malformed: on \<open>01010\<close> with three
  parity bits the syndrome is 6, the index \<open>5 - 6\<close> is negative, and the slices yield a
  string of ten characters.
\<close>

lemma detect_correct_error_syndrome_out_of_range:
  "error_position ''01010'' 3 = Inr 6 \<and> detect_correct_error ''01010'' 3 = Inr ''0101101010''"
  by code_simp

text \<open>
  Claim C5: for every bit string \<open>d\<close> of length \<open>m\<close> with \<open>p = calculate_parity_bits(m)\<close>,
  the code word \<open>calculate_parity_values(position_parity_bits(d, p), p)\<close> has length
  \<open>m + p\<close> and carries the bits of \<open>d\<close>, in order, at the positions that are not powers
  of two.  Each parity bit, at position \<open>2^i\<close> counted from 1 at the right, is the
  exclusive or of the other bits whose position has bit \<open>i\<close> set (when the code computes
  it, the position itself still holds the placeholder 0), so the exclusive or over the
  whole group is 0: the syndrome of the unaltered code word is zero and
  \<open>detect_correct_error\<close> returns it unchanged.
\<close>

theorem hamming_codeword:
  assumes "bit_string d" and "calculate_parity_bits (int (length d)) = Inr p"
  shows "\<exists>w c. position_parity_bits d p = Inr w
           \<and> calculate_parity_values w p = Inr c
           \<and> length c = length d + nat p \<and> bit_string c
           \<and> map (\<lambda>pos. c ! (length c - pos))
                 (rev (filter (\<lambda>pos. \<not> is_power_of_two pos) [1..<Suc (length c)])) = d
           \<and> (\<forall>i<nat p. 2 ^ i \<le> length c
                 \<and> bit_at c (2 ^ i)
                     = xor_list (map (bit_at c) (filter (\<lambda>j. j \<noteq> 2 ^ i) (parity_group c i)))
                 \<and> xor_list (map (bit_at c) (parity_group c i)) = 0)
           \<and> error_position c p = Inr 0
           \<and> detect_correct_error c p = Inr c"
proof -
  from parity_bits_params[OF assms(2)] obtain q where q: "p = int q"
    "\<forall>i<q. 2 ^ i \<le> length d + q" "length d + q < 2 ^ q" by blast
  from hamming_encode[OF assms(1) q(2,3)] obtain w c where
    wc: "position_parity_bits d (int q) = Inr w" "calculate_parity_values w (int q) = Inr c"
        "length c = length d + q" "bit_string c" "\<forall>i<q. \<not> par c i"
        "map (\<lambda>pos. c ! (length c - pos))
           (rev (filter (\<lambda>i. \<not> is_power_of_two i) [1..<Suc (length c)])) = d"
    by blast
  have syn: "syndrome c (nat (int q)) = 0" using wc(5) by (simp add: syndrome_zero)
  have grp: "2 ^ i \<le> length c
             \<and> bit_at c (2 ^ i)
                 = xor_list (map (bit_at c) (filter (\<lambda>j. j \<noteq> 2 ^ i) (parity_group c i)))
             \<and> xor_list (map (bit_at c) (parity_group c i)) = 0" if "i < q" for i
  proof -
    have le: "2 ^ i \<le> length c" using q(2) that wc(3) by simp
    have np: "\<not> par c i" using wc(5) that by blast
    show ?thesis
      unfolding xor_group xor_group_others[OF le] bit_at_of_bool using le np by simp
  qed
  have "position_parity_bits d p = Inr w
           \<and> calculate_parity_values w p = Inr c
           \<and> length c = length d + nat p \<and> bit_string c
           \<and> map (\<lambda>pos. c ! (length c - pos))
                 (rev (filter (\<lambda>pos. \<not> is_power_of_two pos) [1..<Suc (length c)])) = d
           \<and> (\<forall>i<nat p. 2 ^ i \<le> length c
                 \<and> bit_at c (2 ^ i)
                     = xor_list (map (bit_at c) (filter (\<lambda>j. j \<noteq> 2 ^ i) (parity_group c i)))
                 \<and> xor_list (map (bit_at c) (parity_group c i)) = 0)
           \<and> error_position c p = Inr 0
           \<and> detect_correct_error c p = Inr c"
    unfolding q(1) nat_int
    using wc(1,2,3,4,6) grp error_position_bits[OF wc(4), of "int q"] syn
      detect_no_error[OF wc(4) syn]
    by (intro conjI allI impI) simp_all
  then show ?thesis by blast
qed

theorem hamming_codeword_witness:
  "position_parity_bits ''1101'' 3 = Inr ''1100100''
   \<and> calculate_parity_values ''1100100'' 3 = Inr ''1100110''
   \<and> error_position ''1100110'' 3 = Inr 0
   \<and> detect_correct_error ''1100110'' 3 = Inr ''1100110''"
proof -
  have bs: "bit_string ''1101''" by (simp add: bit_string_def)
  have cp: "calculate_parity_bits (int (length ''1101'')) = Inr 3"
    by (simp add: calculate_parity_bits_def calculate_parity_bits_loop.simps bindE_def)
  have e1: "position_parity_bits ''1101'' 3 = Inr ''1100100''" by code_simp
  have e2: "calculate_parity_values ''1100100'' 3 = Inr ''1100110''" by code_simp
  from hamming_codeword [OF bs cp] obtain w c where
    h: "position_parity_bits ''1101'' 3 = Inr w" "calculate_parity_values w 3 = Inr c"
       "error_position c 3 = Inr 0" "detect_correct_error c 3 = Inr c"
    by blast
  from h(1) e1 have w: "w = ''1100100''" by simp
  from h(2) e2 w have c: "c = ''1100110''" by simp
  show ?thesis using e1 e2 h(3,4) unfolding c by blast
qed

text \<open>
  Claim C1: for every bit string \<open>d\<close> of length \<open>m\<close> for which \<open>calculate_parity_bits(m)\<close>
  returns \<open>p\<close>, encoding \<open>d\<close> with \<open>position_parity_bits\<close> and \<open>calculate_parity_values\<close>,
  flipping the bit at any one index \<open>k\<close> of the code word (as \<open>add_noise\<close> does), and
  applying \<open>detect_correct_error\<close> gives the code word back, from which
  \<open>remove_parity_bits\<close> recovers exactly \<open>d\<close>.
\<close>

theorem hamming_single_error_corrected:
  assumes "bit_string d" and "calculate_parity_bits (int (length d)) = Inr p"
    and "k < length d + nat p"
  shows "\<exists>w c r. position_parity_bits d p = Inr w
           \<and> calculate_parity_values w p = Inr c
           \<and> length c = length d + nat p
           \<and> flip_at c (int k) = Inr r \<and> add_noise c k = Inr r
           \<and> length r = length c \<and> (\<forall>i<length c. (r ! i \<noteq> c ! i) = (i = k))
           \<and> detect_correct_error r p = Inr c
           \<and> remove_parity_bits c p = d"
proof -
  from parity_bits_params[OF assms(2)] obtain q where q: "p = int q"
    "\<forall>i<q. 2 ^ i \<le> length d + q" "length d + q < 2 ^ q" by blast
  from hamming_encode[OF assms(1) q(2,3)] obtain w c where
    wc: "position_parity_bits d (int q) = Inr w" "calculate_parity_values w (int q) = Inr c"
        "length c = length d + q" "bit_string c" "\<forall>i<q. \<not> par c i"
        "map (\<lambda>pos. c ! (length c - pos))
           (rev (filter (\<lambda>i. \<not> is_power_of_two i) [1..<Suc (length c)])) = d"
    by blast
  have k: "k < length c" using assms(3) wc(3) q(1) by simp
  have n: "length c < 2 ^ q" using q(3) wc(3) by simp
  let ?r = "c[k := bit_char (c ! k \<noteq> CHR ''1'')]"
  have fl: "flip_at c (int k) = Inr ?r" by (rule flip_at_bits[OF wc(4) k])
  have an: "add_noise c k = Inr ?r" using add_noise_at[OF k] fl by simp
  have ne: "bit_char (c ! k \<noteq> CHR ''1'') \<noteq> c ! k"
    using bit_string_nth[OF wc(4) k] by (auto simp: bit_char_def)
  have diff: "(?r ! i \<noteq> c ! i) = (i = k)" if "i < length c" for i
    using that ne by (cases "i = k") simp_all
  have det: "detect_correct_error ?r (int q) = Inr c"
    by (rule single_error[OF wc(4,5) k n])
  have rem: "remove_parity_bits c (int q) = d"
    using remove_parity_bits_data[OF n] wc(6) by (rule trans)
  have "position_parity_bits d p = Inr w
           \<and> calculate_parity_values w p = Inr c
           \<and> length c = length d + nat p
           \<and> flip_at c (int k) = Inr ?r \<and> add_noise c k = Inr ?r
           \<and> length ?r = length c \<and> (\<forall>i<length c. (?r ! i \<noteq> c ! i) = (i = k))
           \<and> detect_correct_error ?r p = Inr c
           \<and> remove_parity_bits c p = d"
    unfolding q(1) nat_int
    using wc(1,2,3) fl an diff det rem
    by (intro conjI allI impI) simp_all
  then show ?thesis by blast
qed

theorem hamming_single_error_corrected_witness:
  "flip_at ''1100110'' 2 = Inr ''1110110''
   \<and> detect_correct_error ''1110110'' 3 = Inr ''1100110''
   \<and> remove_parity_bits ''1100110'' 3 = ''1101''"
proof -
  have bs: "bit_string ''1101''" by (simp add: bit_string_def)
  have cp: "calculate_parity_bits (int (length ''1101'')) = Inr 3"
    by (simp add: calculate_parity_bits_def calculate_parity_bits_loop.simps bindE_def)
  have k: "(2::nat) < length ''1101'' + nat 3" by simp
  have e1: "position_parity_bits ''1101'' 3 = Inr ''1100100''" by code_simp
  have e2: "calculate_parity_values ''1100100'' 3 = Inr ''1100110''" by code_simp
  have e3: "flip_at ''1100110'' 2 = Inr ''1110110''" by code_simp
  from hamming_single_error_corrected [OF bs cp k] obtain w c r where
    h: "position_parity_bits ''1101'' 3 = Inr w" "calculate_parity_values w 3 = Inr c"
       "flip_at c (int 2) = Inr r" "detect_correct_error r 3 = Inr c"
       "remove_parity_bits c 3 = ''1101''"
    by blast
  from h(1) e1 have w: "w = ''1100100''" by simp
  from h(2) e2 w have c: "c = ''1100110''" by simp
  from h(3) e3 c have r: "r = ''1110110''" by simp
  show ?thesis using e3 h(4,5) unfolding c r by blast
qed

end
